theory Spec2Isabelle
  imports Main
begin

section \<open>JavaScript values\<close>

text \<open>
  The command-monitoring module \<^verbatim>\<open>connection/apm.js\<close> works on untyped JavaScript
  objects: it tests \<^verbatim>\<open>instanceof\<close>, reads properties that may be missing, relies on
  truthiness, and takes the first element of \<^verbatim>\<open>Object.keys\<close>. The embedding therefore
  keeps a small universe of JavaScript values.

  \<^item> An object is its class (what \<^verbatim>\<open>instanceof\<close> can see) and the list of its own
    enumerable properties in the order \<^verbatim>\<open>Object.keys\<close> reports them. Objects have no
    accessors and no inherited data properties.
  \<^item> Numbers are integers (the safe-integer range of a JavaScript number).
  \<^item> Every exception the module can raise is a \<^verbatim>\<open>TypeError\<close> (a property read from
    \<^verbatim>\<open>undefined\<close> or \<^verbatim>\<open>null\<close>, or a call of \<^verbatim>\<open>split\<close> on something that has none).
\<close>

datatype jsclass = ObjectClass | GetMore | KillCursor | OtherClass string

datatype jsval =
    JUndefined
  | JNull
  | JBool bool
  | JNum int
  | JStr string
  | JArr "jsval list"
  | JObj jsclass "(string \<times> jsval) list"

datatype error = TypeError

definition bindE :: "error + 'a \<Rightarrow> ('a \<Rightarrow> error + 'b) \<Rightarrow> error + 'b" where
  "bindE m f = (case m of Inl e \<Rightarrow> Inl e | Inr x \<Rightarrow> f x)"

text \<open>\<^verbatim>\<open>x instanceof C\<close>: false for every primitive value and for arrays.\<close>

fun instanceof :: "jsval \<Rightarrow> jsclass \<Rightarrow> bool" where
  "instanceof (JObj c kvs) c' = (c = c')"
| "instanceof v c' = False"

text \<open>Truthiness, as used by \<^verbatim>\<open>&&\<close>, \<^verbatim>\<open>? :\<close> and \<^verbatim>\<open>if\<close>.\<close>

fun truthy :: "jsval \<Rightarrow> bool" where
  "truthy JUndefined = False"
| "truthy JNull = False"
| "truthy (JBool b) = b"
| "truthy (JNum n) = (n \<noteq> 0)"
| "truthy (JStr s) = (s \<noteq> [])"
| "truthy (JArr xs) = True"
| "truthy (JObj c kvs) = True"

text \<open>Decimal numerals, for array indices as property names and for template strings.\<close>

definition digit_char :: "nat \<Rightarrow> char" where
  "digit_char d = ''0123456789'' ! (d mod 10)"

fun string_of_nat :: "nat \<Rightarrow> string" where
  "string_of_nat n =
     (if n < 10 then [digit_char n]
      else string_of_nat (n div 10) @ [digit_char (n mod 10)])"

declare string_of_nat.simps [simp del]

definition string_of_int :: "int \<Rightarrow> string" where
  "string_of_int i = (if i < 0 then CHR ''-'' # string_of_nat (nat (- i)) else string_of_nat (nat i))"

definition index_keys :: "nat \<Rightarrow> string list" where
  "index_keys n = map string_of_nat [0..<n]"

text \<open>
  \<^verbatim>\<open>xs[i]\<close> on an array: the element, or \<^verbatim>\<open>undefined\<close> beyond the end.
\<close>

definition nth_or_undefined :: "jsval list \<Rightarrow> nat \<Rightarrow> jsval" where
  "nth_or_undefined xs i = (if i < length xs then xs ! i else JUndefined)"

definition lookup_prop :: "(string \<times> jsval) list \<Rightarrow> string \<Rightarrow> jsval" where
  "lookup_prop kvs k = (case map_of kvs k of None \<Rightarrow> JUndefined | Some v \<Rightarrow> v)"

definition index_prop :: "jsval list \<Rightarrow> string \<Rightarrow> jsval" where
  "index_prop xs k =
     (if k = ''length'' then JNum (int (length xs))
      else case find (\<lambda>i. string_of_nat i = k) [0..<length xs] of
             None \<Rightarrow> JUndefined
           | Some i \<Rightarrow> xs ! i)"

text \<open>
  \<^verbatim>\<open>v.k\<close> and \<^verbatim>\<open>v[k]\<close>. Reading from \<^verbatim>\<open>undefined\<close> or \<^verbatim>\<open>null\<close> throws; a missing
  property reads as \<^verbatim>\<open>undefined\<close>; arrays and strings have their indices and
  \<^verbatim>\<open>length\<close>; numbers and booleans have no own properties.
\<close>

fun getProp :: "jsval \<Rightarrow> string \<Rightarrow> error + jsval" where
  "getProp JUndefined k = Inl TypeError"
| "getProp JNull k = Inl TypeError"
| "getProp (JBool b) k = Inr JUndefined"
| "getProp (JNum n) k = Inr JUndefined"
| "getProp (JStr s) k = Inr (index_prop (map (\<lambda>c. JStr [c]) s) k)"
| "getProp (JArr xs) k = Inr (index_prop xs k)"
| "getProp (JObj c kvs) k = Inr (lookup_prop kvs k)"

text \<open>
  \<^verbatim>\<open>result[k] = v\<close> on an ordinary object whose key is not an array index: an existing
  property keeps its place, a new one goes last.
\<close>

fun setProp :: "(string \<times> 'v) list \<Rightarrow> string \<Rightarrow> 'v \<Rightarrow> (string \<times> 'v) list" where
  "setProp [] k v = [(k, v)]"
| "setProp (p # ps) k v = (if fst p = k then (k, v) # ps else p # setProp ps k v)"

text \<open>
  \<^verbatim>\<open>s.split(c)\<close> for a one-character separator: the segments between the separators,
  never an empty array (so the first branch of the \<open>case\<close> below is never taken).
\<close>

fun split_str :: "char \<Rightarrow> string \<Rightarrow> string list" where
  "split_str c [] = [[]]"
| "split_str c (x # xs) =
     (if x = c then [] # split_str c xs
      else case split_str c xs of
             [] \<Rightarrow> [[x]]
           | s # ss \<Rightarrow> (x # s) # ss)"

text \<open>\<^verbatim>\<open>v.split('.')\<close>: only strings have the method.\<close>

fun split :: "jsval \<Rightarrow> char \<Rightarrow> error + jsval list" where
  "split (JStr s) c = Inr (map JStr (split_str c s))"
| "split v c = Inl TypeError"

text \<open>\<^verbatim>\<open>Object.keys(v)\<close>.\<close>

fun objectKeys :: "jsval \<Rightarrow> error + string list" where
  "objectKeys JUndefined = Inl TypeError"
| "objectKeys JNull = Inl TypeError"
| "objectKeys (JBool b) = Inr []"
| "objectKeys (JNum n) = Inr []"
| "objectKeys (JStr s) = Inr (index_keys (length s))"
| "objectKeys (JArr xs) = Inr (index_keys (length xs))"
| "objectKeys (JObj c kvs) = Inr (map fst kvs)"

section \<open>The command translator\<close>

definition LEGACY_FIND_QUERY_MAP :: "(string \<times> string) list" where
  "LEGACY_FIND_QUERY_MAP =
     [(''$query'', ''filter''),
      (''$orderby'', ''sort''),
      (''$hint'', ''hint''),
      (''$comment'', ''comment''),
      (''$maxScan'', ''maxScan''),
      (''$max'', ''max''),
      (''$min'', ''min''),
      (''$returnKey'', ''returnKey''),
      (''$showDiskLoc'', ''showRecordId''),
      (''$maxTimeMS'', ''maxTimeMS''),
      (''$snapshot'', ''snapshot'')]"

definition LEGACY_FIND_OPTIONS_MAP :: "(string \<times> string) list" where
  "LEGACY_FIND_OPTIONS_MAP =
     [(''numberToSkip'', ''skip''),
      (''numberToReturn'', ''batchSize''),
      (''returnFieldsSelector'', ''projection'')]"

definition OP_QUERY_KEYS :: "string list" where
  "OP_QUERY_KEYS =
     [''tailable'', ''oplogReplay'', ''noCursorTimeout'', ''awaitData'', ''partial'', ''exhaust'']"

text \<open>
  \<^verbatim>\<open>keys.forEach(key => ...)\<close> where the body may throw and updates the properties of
  \<^verbatim>\<open>result\<close>: the first exception ends the loop.
\<close>

fun forEachE :: "('k \<Rightarrow> 's \<Rightarrow> error + 's) \<Rightarrow> 'k list \<Rightarrow> 's \<Rightarrow> error + 's" where
  "forEachE f [] s = Inr s"
| "forEachE f (k # ks) s = bindE (f k s) (forEachE f ks)"

text \<open>
  The body of the two table-driven loops:
  \<^verbatim>\<open>if (typeof src[key] !== 'undefined') result[MAP[key]] = src[key]\<close>,
  the entry \<open>(key, MAP[key])\<close> of the table being the loop variable. The source
  expression \<^verbatim>\<open>src\<close> (\<^verbatim>\<open>command.query\<close>, \<^verbatim>\<open>command.options\<close>) is read again in every
  iteration.
\<close>

definition copy_defined ::
  "jsval \<Rightarrow> string \<Rightarrow> string \<times> string \<Rightarrow> (string \<times> jsval) list \<Rightarrow> error + (string \<times> jsval) list" where
  "copy_defined command field entry result =
     bindE (getProp command field) (\<lambda>src.
     bindE (getProp src (fst entry)) (\<lambda>v.
       if v \<noteq> JUndefined then Inr (setProp result (snd entry) v) else Inr result))"

text \<open>The body of the flag loop: \<^verbatim>\<open>if (command[key]) result[key] = command[key]\<close>.\<close>

definition copy_truthy ::
  "jsval \<Rightarrow> string \<Rightarrow> (string \<times> jsval) list \<Rightarrow> error + (string \<times> jsval) list" where
  "copy_truthy command key result =
     bindE (getProp command key) (\<lambda>v.
       if truthy v then Inr (setProp result key v) else Inr result)"

text \<open>
  The test \<^verbatim>\<open>command.query && typeof command.query.$query !== 'undefined'\<close> that
  recognises a legacy find.
\<close>

definition is_legacy_find :: "jsval \<Rightarrow> error + bool" where
  "is_legacy_find command =
     bindE (getProp command ''query'') (\<lambda>query.
       if truthy query
       then bindE (getProp query ''$query'') (\<lambda>q. Inr (q \<noteq> JUndefined))
       else Inr False)"

definition upconvert_legacy_find :: "jsval \<Rightarrow> error + jsval" where
  "upconvert_legacy_find command =
     bindE (getProp command ''ns'') (\<lambda>ns.
     bindE (split ns CHR ''.'') (\<lambda>segs.
     bindE (forEachE (copy_defined command ''query'') LEGACY_FIND_QUERY_MAP
              [(''find'', nth_or_undefined segs 1)]) (\<lambda>result.
     bindE (forEachE (copy_defined command ''options'') LEGACY_FIND_OPTIONS_MAP result) (\<lambda>result.
     bindE (forEachE (copy_truthy command) OP_QUERY_KEYS result) (\<lambda>result.
     bindE (getProp command ''pre32Limit'') (\<lambda>pre32Limit.
     bindE (Inr (if pre32Limit \<noteq> JUndefined then setProp result ''limit'' pre32Limit
                 else result)) (\<lambda>result.
     bindE (getProp command ''query'') (\<lambda>query.
     bindE (getProp query ''$explain'') (\<lambda>explain.
       if truthy explain then Inr (JObj ObjectClass [(''explain'', JObj ObjectClass result)])
       else Inr (JObj ObjectClass result))))))))))"

definition extractCommand :: "jsval \<Rightarrow> error + jsval" where
  "extractCommand command =
     (if instanceof command GetMore then
        bindE (getProp command ''cursorId'') (\<lambda>cursorId.
        bindE (getProp command ''ns'') (\<lambda>ns.
        bindE (split ns CHR ''.'') (\<lambda>segs.
        bindE (getProp command ''numberToReturn'') (\<lambda>numberToReturn.
          Inr (JObj ObjectClass
                 [(''getMore'', cursorId),
                  (''collection'', nth_or_undefined segs 1),
                  (''batchSize'', numberToReturn)])))))
      else if instanceof command KillCursor then
        bindE (getProp command ''ns'') (\<lambda>ns.
        bindE (split ns CHR ''.'') (\<lambda>segs.
        bindE (getProp command ''cursorIds'') (\<lambda>cursorIds.
          Inr (JObj ObjectClass
                 [(''killCursors'', nth_or_undefined segs 1),
                  (''cursors'', cursorIds)]))))
      else
        bindE (is_legacy_find command) (\<lambda>legacy.
          if legacy then upconvert_legacy_find command
          else bindE (getProp command ''query'') (\<lambda>query.
                 Inr (if truthy query then query else command))))"

definition extractReply :: "jsval \<Rightarrow> jsval \<Rightarrow> error + jsval" where
  "extractReply command reply =
     (if instanceof command GetMore then
        bindE (getProp reply ''message'') (\<lambda>message.
        bindE (getProp message ''cursorId'') (\<lambda>cursorId.
        bindE (getProp command ''ns'') (\<lambda>ns.
        bindE (getProp message ''documents'') (\<lambda>documents.
          Inr (JObj ObjectClass
                 [(''ok'', JNum 1),
                  (''cursor'', JObj ObjectClass
                     [(''id'', cursorId), (''ns'', ns), (''nextBatch'', documents)])])))))
      else if instanceof command KillCursor then
        bindE (getProp command ''cursorIds'') (\<lambda>cursorIds.
          Inr (JObj ObjectClass [(''ok'', JNum 1), (''cursorsUnknown'', cursorIds)]))
      else
        bindE (is_legacy_find command) (\<lambda>legacy.
          if legacy then
            bindE (getProp reply ''message'') (\<lambda>message.
            bindE (getProp message ''cursorId'') (\<lambda>cursorId.
            bindE (getProp command ''ns'') (\<lambda>ns.
            bindE (getProp message ''documents'') (\<lambda>documents.
              Inr (JObj ObjectClass
                     [(''ok'', JNum 1),
                      (''cursor'', JObj ObjectClass
                         [(''id'', cursorId), (''ns'', ns), (''firstBatch'', documents)])])))))
          else getProp reply ''result''))"

section \<open>The command event factory\<close>

definition SENSITIVE_COMMANDS :: "string list" where
  "SENSITIVE_COMMANDS =
     [''authenticate'', ''saslStart'', ''saslContinue'', ''getnonce'', ''createUser'',
      ''updateUser'', ''copydbgetnonce'', ''copydbsaslstart'', ''copydb'']"

text \<open>\<^verbatim>\<open>SENSITIVE_COMMANDS.has(x)\<close>: only a string can be a member of a set of strings.\<close>

fun has_sensitive :: "jsval \<Rightarrow> bool" where
  "has_sensitive (JStr s) = (s \<in> set SENSITIVE_COMMANDS)"
| "has_sensitive v = False"

text \<open>\<^verbatim>\<open>Object.keys(command)[0]\<close>: the first key, or \<^verbatim>\<open>undefined\<close> when there is none.\<close>

definition extractCommandName :: "jsval \<Rightarrow> error + jsval" where
  "extractCommandName command =
     bindE (objectKeys command) (\<lambda>keys.
       Inr (case keys of [] \<Rightarrow> JUndefined | k # ks \<Rightarrow> JStr k))"

text \<open>
  \<^verbatim>\<open>Date.now() - started\<close>. The clock is an input of the model: \<open>now\<close> is the value
  that \<^verbatim>\<open>Date.now()\<close> returns when the event is built.
\<close>

definition calculateDuration :: "int \<Rightarrow> int \<Rightarrow> int" where
  "calculateDuration now started = now - started"

text \<open>
  String conversion inside a template literal, for values without a \<^verbatim>\<open>toString\<close> of
  their own.
\<close>

fun join_comma :: "string list \<Rightarrow> string" where
  "join_comma [] = []"
| "join_comma [s] = s"
| "join_comma (s # t # ss) = s @ '','' @ join_comma (t # ss)"

fun toStringJS :: "jsval \<Rightarrow> string" where
  "toStringJS JUndefined = ''undefined''"
| "toStringJS JNull = ''null''"
| "toStringJS (JBool b) = (if b then ''true'' else ''false'')"
| "toStringJS (JNum n) = string_of_int n"
| "toStringJS (JStr s) = s"
| "toStringJS (JArr xs) =
     join_comma (map (\<lambda>x. if x = JUndefined \<or> x = JNull then [] else toStringJS x) xs)"
| "toStringJS (JObj c kvs) = ''[object Object]''"

record pool_options =
  host :: jsval
  port :: jsval

record pool =
  options :: pool_options

definition generateConnectionId :: "pool \<Rightarrow> string" where
  "generateConnectionId pool =
     toStringJS (host (options pool)) @ '':'' @ toStringJS (port (options pool))"

definition maybeRedact :: "jsval \<Rightarrow> jsval \<Rightarrow> jsval" where
  "maybeRedact commandName result =
     (if has_sensitive commandName then JObj ObjectClass [] else result)"

text \<open>
  The three event classes. The fields shared by all of them come first; \<open>commandObj\<close>
  is \<open>None\<close> when the constructor does not create that property. From here on the
  parameter \<^verbatim>\<open>command\<close> of the source is written \<open>cmnd\<close>, and \<^verbatim>\<open>reply\<close> is written
  \<open>rply\<close>, since \<open>command\<close> and \<open>reply\<close> are fields of the events.
\<close>

record command_event =
  commandName :: jsval
  requestId :: jsval
  connectionId :: string

record started_event = command_event +
  commandObj :: "jsval option"
  command :: jsval
  databaseName :: jsval

record terminal_event = command_event +
  duration :: int

record succeeded_event = terminal_event +
  reply :: jsval

record failed_event = terminal_event +
  failure :: jsval

definition CommandStartedEvent :: "pool \<Rightarrow> jsval \<Rightarrow> error + started_event" where
  "CommandStartedEvent pool cmnd =
     bindE (extractCommand cmnd) (\<lambda>cmd.
     bindE (extractCommandName cmd) (\<lambda>name.
     bindE (getProp cmnd ''ns'') (\<lambda>ns.
     bindE (split ns CHR ''.'') (\<lambda>segs.
     bindE (extractCommandName cmd) (\<lambda>name'.
     bindE (getProp cmnd ''requestId'') (\<lambda>rid.
       Inr \<lparr> commandName = name',
             requestId = rid,
             connectionId = generateConnectionId pool,
             commandObj =
               (if has_sensitive name
                then Some (JObj ObjectClass (setProp [] (toStringJS name) (JBool True)))
                else None),
             command = cmd,
             databaseName = nth_or_undefined segs 0 \<rparr>))))))"

definition CommandSucceededEvent ::
  "pool \<Rightarrow> jsval \<Rightarrow> jsval \<Rightarrow> int \<Rightarrow> int \<Rightarrow> error + succeeded_event" where
  "CommandSucceededEvent pool cmnd rply started now =
     bindE (extractCommand cmnd) (\<lambda>cmd.
     bindE (extractCommandName cmd) (\<lambda>name.
     bindE (extractReply cmnd rply) (\<lambda>r.
     bindE (getProp cmnd ''requestId'') (\<lambda>rid.
       Inr \<lparr> commandName = name,
             requestId = rid,
             connectionId = generateConnectionId pool,
             duration = calculateDuration now started,
             reply = maybeRedact name r \<rparr>))))"

definition CommandFailedEvent ::
  "pool \<Rightarrow> jsval \<Rightarrow> jsval \<Rightarrow> int \<Rightarrow> int \<Rightarrow> error + failed_event" where
  "CommandFailedEvent pool cmnd err started now =
     bindE (extractCommand cmnd) (\<lambda>cmd.
     bindE (extractCommandName cmd) (\<lambda>name.
     bindE (getProp cmnd ''requestId'') (\<lambda>rid.
       Inr \<lparr> commandName = name,
             requestId = rid,
             connectionId = generateConnectionId pool,
             duration = calculateDuration now started,
             failure = maybeRedact name err \<rparr>)))"

section \<open>Auxiliary notions for the statements\<close>

text \<open>
  \<open>nullish v\<close>: \<open>v\<close> is \<^verbatim>\<open>undefined\<close> or \<^verbatim>\<open>null\<close>, the two values from which no
  property can be read. \<open>getv v k\<close> is the value of \<^verbatim>\<open>v[k]\<close> where that read does
  not throw; it is used in statements only under the hypothesis that \<open>v\<close> is not nullish.
\<close>

definition nullish :: "jsval \<Rightarrow> bool" where
  "nullish v = (v = JUndefined \<or> v = JNull)"

definition getv :: "jsval \<Rightarrow> string \<Rightarrow> jsval" where
  "getv v k = (case getProp v k of Inl e \<Rightarrow> JUndefined | Inr x \<Rightarrow> x)"

text \<open>
  The specification of the legacy-find upconversion, in its own words. The three fixed
  tables are those of section 6 of the specification, written out here: the query
  modifiers with their canonical names, the legacy options with their canonical names,
  and the boolean flags that are copied verbatim when true.
\<close>

definition query_modifiers_spec :: "(string \<times> string) list" where
  "query_modifiers_spec =
     [(''$query'', ''filter''), (''$orderby'', ''sort''), (''$hint'', ''hint''),
      (''$comment'', ''comment''), (''$maxScan'', ''maxScan''), (''$max'', ''max''),
      (''$min'', ''min''), (''$returnKey'', ''returnKey''),
      (''$showDiskLoc'', ''showRecordId''), (''$maxTimeMS'', ''maxTimeMS''),
      (''$snapshot'', ''snapshot'')]"

definition legacy_options_spec :: "(string \<times> string) list" where
  "legacy_options_spec =
     [(''numberToSkip'', ''skip''), (''numberToReturn'', ''batchSize''),
      (''returnFieldsSelector'', ''projection'')]"

definition boolean_flags_spec :: "string list" where
  "boolean_flags_spec =
     [''tailable'', ''oplogReplay'', ''noCursorTimeout'', ''awaitData'', ''partial'', ''exhaust'']"

text \<open>
  The upconverted fields: start from \<open>{find: <collection>}\<close>, then every recognised
  modifier of the query document that is present, under its canonical name, then every
  recognised legacy option that is present, under its canonical name, then every flag
  that is truthy, then the pre-3.2 limit as \<open>limit\<close>. Each part is a plain list of fields
  in table order; the whole is their concatenation.
\<close>

definition copied_defined :: "jsval \<Rightarrow> (string \<times> string) list \<Rightarrow> (string \<times> jsval) list" where
  "copied_defined src table =
     map (\<lambda>e. (snd e, getv src (fst e))) (filter (\<lambda>e. getv src (fst e) \<noteq> JUndefined) table)"

definition copied_truthy :: "jsval \<Rightarrow> string list \<Rightarrow> (string \<times> jsval) list" where
  "copied_truthy src keys = map (\<lambda>k. (k, getv src k)) (filter (\<lambda>k. truthy (getv src k)) keys)"

definition legacy_find_fields_spec :: "jsval \<Rightarrow> (string \<times> jsval) list" where
  "legacy_find_fields_spec cmnd =
     (''find'',
      nth_or_undefined
        (case split (getv cmnd ''ns'') CHR ''.'' of Inl e \<Rightarrow> [] | Inr segs \<Rightarrow> segs) 1)
     # copied_defined (getv cmnd ''query'') query_modifiers_spec
     @ copied_defined (getv cmnd ''options'') legacy_options_spec
     @ copied_truthy cmnd boolean_flags_spec
     @ (if getv cmnd ''pre32Limit'' \<noteq> JUndefined
        then [(''limit'', getv cmnd ''pre32Limit'')] else [])"

section \<open>The cmnd translator on a heap of objects\<close>

text \<open>
  Whether \<^verbatim>\<open>extractCommand\<close> mutates its argument cannot be asked of a function on
  values. The translator is therefore embedded a second time over an explicit store:
  objects live at addresses, a value is a primitive or a reference, \<^verbatim>\<open>{...}\<close> allocates
  a new object at the next free address, and \<^verbatim>\<open>result[k] = v\<close> is a write to the store
  at the address that \<^verbatim>\<open>result\<close> refers to. Arrays are objects of this store whose keys
  are their indices; the array that \<^verbatim>\<open>split\<close> returns is read once and dropped, so it
  is not allocated.
\<close>

datatype hval = HUndefined | HNull | HBool bool | HNum int | HStr string | HRef nat

record hobj =
  hclass :: jsclass
  hprops :: "(string \<times> hval) list"

type_synonym heap = "hobj list"

type_synonym 'a hm = "heap \<Rightarrow> (error + 'a) \<times> heap"

definition returnH :: "'a \<Rightarrow> 'a hm" where
  "returnH x = (\<lambda>h. (Inr x, h))"

definition bindH :: "'a hm \<Rightarrow> ('a \<Rightarrow> 'b hm) \<Rightarrow> 'b hm" where
  "bindH m f = (\<lambda>h. case m h of (Inl e, h') \<Rightarrow> (Inl e, h') | (Inr x, h') \<Rightarrow> f x h')"

text \<open>A computation that only reads the store.\<close>

definition readH :: "(heap \<Rightarrow> error + 'a) \<Rightarrow> 'a hm" where
  "readH g = (\<lambda>h. (g h, h))"

text \<open>An object literal: the new object goes to the next free address.\<close>

definition allocH :: "hobj \<Rightarrow> hval hm" where
  "allocH ob = (\<lambda>h. (Inr (HRef (length h)), h @ [ob]))"

fun instanceofH :: "heap \<Rightarrow> hval \<Rightarrow> jsclass \<Rightarrow> bool" where
  "instanceofH h (HRef a) c = (a < length h \<and> hclass (h ! a) = c)"
| "instanceofH h v c = False"

fun truthyH :: "hval \<Rightarrow> bool" where
  "truthyH HUndefined = False"
| "truthyH HNull = False"
| "truthyH (HBool b) = b"
| "truthyH (HNum n) = (n \<noteq> 0)"
| "truthyH (HStr s) = (s \<noteq> [])"
| "truthyH (HRef a) = True"

definition lookup_propH :: "(string \<times> hval) list \<Rightarrow> string \<Rightarrow> hval" where
  "lookup_propH kvs k = (case map_of kvs k of None \<Rightarrow> HUndefined | Some v \<Rightarrow> v)"

definition str_propH :: "string \<Rightarrow> string \<Rightarrow> hval" where
  "str_propH s k =
     (if k = ''length'' then HNum (int (length s))
      else case find (\<lambda>i. string_of_nat i = k) [0..<length s] of
             None \<Rightarrow> HUndefined
           | Some i \<Rightarrow> HStr [s ! i])"

text \<open>
  \<^verbatim>\<open>v.k\<close> and \<^verbatim>\<open>v[k]\<close> in a store. A reference always points into the store it
  belongs to; the branch for one that does not is there to make the function total.
\<close>

fun getPropH :: "heap \<Rightarrow> hval \<Rightarrow> string \<Rightarrow> error + hval" where
  "getPropH h HUndefined k = Inl TypeError"
| "getPropH h HNull k = Inl TypeError"
| "getPropH h (HBool b) k = Inr HUndefined"
| "getPropH h (HNum n) k = Inr HUndefined"
| "getPropH h (HStr s) k = Inr (str_propH s k)"
| "getPropH h (HRef a) k =
     (if a < length h then Inr (lookup_propH (hprops (h ! a)) k) else Inl TypeError)"

text \<open>
  \<^verbatim>\<open>target[k] = v\<close>: a write to the object that \<open>target\<close> refers to, wherever it is in
  the store. The module runs in strict mode, where assigning to a property of a
  primitive value throws.
\<close>

fun setPropH :: "hval \<Rightarrow> string \<Rightarrow> hval \<Rightarrow> unit hm" where
  "setPropH (HRef a) k v =
     (\<lambda>h. if a < length h
          then (Inr (), h[a := (h ! a)\<lparr>hprops := setProp (hprops (h ! a)) k v\<rparr>])
          else (Inl TypeError, h))"
| "setPropH target k v = (\<lambda>h. (Inl TypeError, h))"

fun splitH :: "hval \<Rightarrow> char \<Rightarrow> error + hval list" where
  "splitH (HStr s) c = Inr (map HStr (split_str c s))"
| "splitH v c = Inl TypeError"

definition nth_or_undefinedH :: "hval list \<Rightarrow> nat \<Rightarrow> hval" where
  "nth_or_undefinedH xs i = (if i < length xs then xs ! i else HUndefined)"

fun forEachH :: "('k \<Rightarrow> unit hm) \<Rightarrow> 'k list \<Rightarrow> unit hm" where
  "forEachH f [] = returnH ()"
| "forEachH f (k # ks) = bindH (f k) (\<lambda>u. forEachH f ks)"

definition copy_definedH :: "hval \<Rightarrow> string \<Rightarrow> hval \<Rightarrow> string \<times> string \<Rightarrow> unit hm" where
  "copy_definedH cmnd field result entry =
     bindH (readH (\<lambda>h. getPropH h cmnd field)) (\<lambda>src.
     bindH (readH (\<lambda>h. getPropH h src (fst entry))) (\<lambda>v.
       if v \<noteq> HUndefined then setPropH result (snd entry) v else returnH ()))"

definition copy_truthyH :: "hval \<Rightarrow> hval \<Rightarrow> string \<Rightarrow> unit hm" where
  "copy_truthyH cmnd result key =
     bindH (readH (\<lambda>h. getPropH h cmnd key)) (\<lambda>v.
       if truthyH v then setPropH result key v else returnH ())"

definition is_legacy_findH :: "hval \<Rightarrow> bool hm" where
  "is_legacy_findH cmnd =
     bindH (readH (\<lambda>h. getPropH h cmnd ''query'')) (\<lambda>query.
       if truthyH query
       then bindH (readH (\<lambda>h. getPropH h query ''$query'')) (\<lambda>q. returnH (q \<noteq> HUndefined))
       else returnH False)"

definition upconvert_legacy_findH :: "hval \<Rightarrow> hval hm" where
  "upconvert_legacy_findH cmnd =
     bindH (readH (\<lambda>h. getPropH h cmnd ''ns'')) (\<lambda>ns.
     bindH (readH (\<lambda>h. splitH ns CHR ''.'')) (\<lambda>segs.
     bindH (allocH \<lparr>hclass = ObjectClass,
                    hprops = [(''find'', nth_or_undefinedH segs 1)]\<rparr>) (\<lambda>result.
     bindH (forEachH (copy_definedH cmnd ''query'' result) LEGACY_FIND_QUERY_MAP) (\<lambda>u.
     bindH (forEachH (copy_definedH cmnd ''options'' result) LEGACY_FIND_OPTIONS_MAP) (\<lambda>u.
     bindH (forEachH (copy_truthyH cmnd result) OP_QUERY_KEYS) (\<lambda>u.
     bindH (readH (\<lambda>h. getPropH h cmnd ''pre32Limit'')) (\<lambda>pre32Limit.
     bindH (if pre32Limit \<noteq> HUndefined then setPropH result ''limit'' pre32Limit
            else returnH ()) (\<lambda>u.
     bindH (readH (\<lambda>h. getPropH h cmnd ''query'')) (\<lambda>query.
     bindH (readH (\<lambda>h. getPropH h query ''$explain'')) (\<lambda>explain.
       if truthyH explain
       then allocH \<lparr>hclass = ObjectClass, hprops = [(''explain'', result)]\<rparr>
       else returnH result))))))))))"

definition extractCommandH :: "hval \<Rightarrow> hval hm" where
  "extractCommandH cmnd =
     bindH (readH (\<lambda>h. Inr (instanceofH h cmnd GetMore))) (\<lambda>isGetMore.
     if isGetMore then
       bindH (readH (\<lambda>h. getPropH h cmnd ''cursorId'')) (\<lambda>cursorId.
       bindH (readH (\<lambda>h. getPropH h cmnd ''ns'')) (\<lambda>ns.
       bindH (readH (\<lambda>h. splitH ns CHR ''.'')) (\<lambda>segs.
       bindH (readH (\<lambda>h. getPropH h cmnd ''numberToReturn'')) (\<lambda>numberToReturn.
         allocH \<lparr>hclass = ObjectClass,
                 hprops = [(''getMore'', cursorId),
                           (''collection'', nth_or_undefinedH segs 1),
                           (''batchSize'', numberToReturn)]\<rparr>))))
     else
     bindH (readH (\<lambda>h. Inr (instanceofH h cmnd KillCursor))) (\<lambda>isKillCursor.
     if isKillCursor then
       bindH (readH (\<lambda>h. getPropH h cmnd ''ns'')) (\<lambda>ns.
       bindH (readH (\<lambda>h. splitH ns CHR ''.'')) (\<lambda>segs.
       bindH (readH (\<lambda>h. getPropH h cmnd ''cursorIds'')) (\<lambda>cursorIds.
         allocH \<lparr>hclass = ObjectClass,
                 hprops = [(''killCursors'', nth_or_undefinedH segs 1),
                           (''cursors'', cursorIds)]\<rparr>)))
     else
       bindH (is_legacy_findH cmnd) (\<lambda>legacy.
         if legacy then upconvert_legacy_findH cmnd
         else bindH (readH (\<lambda>h. getPropH h cmnd ''query'')) (\<lambda>query.
                returnH (if truthyH query then query else cmnd)))))"

text \<open>
  A store is closed when every reference held by one of its objects points into it, and
  a value is valid in a store when it is a primitive or points into it.
\<close>

fun valid_val :: "heap \<Rightarrow> hval \<Rightarrow> bool" where
  "valid_val h (HRef a) = (a < length h)"
| "valid_val h v = True"

definition closed_heap :: "heap \<Rightarrow> bool" where
  "closed_heap h = list_all (\<lambda>ob. list_all (\<lambda>kv. valid_val h (snd kv)) (hprops ob)) h"

text \<open>
  Two values are the same output down to depth \<open>n\<close>: equal primitives, or references to
  objects of the same class with the same keys in the same order and, at each key, the
  same output down to depth \<open>n - 1\<close>.
\<close>

fun same_output :: "nat \<Rightarrow> heap \<Rightarrow> hval \<Rightarrow> hval \<Rightarrow> bool" where
  "same_output 0 h v w = True"
| "same_output (Suc n) h (HRef a) (HRef b) =
     (a < length h \<and> b < length h \<and>
      hclass (h ! a) = hclass (h ! b) \<and>
      map fst (hprops (h ! a)) = map fst (hprops (h ! b)) \<and>
      list_all2 (same_output n h) (map snd (hprops (h ! a))) (map snd (hprops (h ! b))))"
| "same_output (Suc n) h v w = (v = w)"


section \<open>Notions for reasoning about the store\<close>

text \<open>
  \<open>frames n m\<close>: the computation \<open>m\<close> leaves the first \<open>n\<close> objects of any store as
  they are. \<open>extends_at h m\<close>: run on \<open>h\<close>, it only adds objects after those of \<open>h\<close>.
  An \<open>outcome\<close> describes a run of the translator up to the addresses of what it
  allocates: an exception (with the objects allocated before it), a value that existed
  before the call, a new object, or a new object wrapped in a new \<open>{explain: ...}\<close>;
  \<open>realize\<close> is the run it describes on a given store.
\<close>

definition frames :: "nat \<Rightarrow> 'a hm \<Rightarrow> bool" where
  "frames n m = (\<forall>h. n \<le> length h \<longrightarrow> n \<le> length (snd (m h)) \<and> take n (snd (m h)) = take n h)"

definition extends_at :: "heap \<Rightarrow> 'a hm \<Rightarrow> bool" where
  "extends_at h m = (\<exists>new. snd (m h) = h @ new)"

datatype outcome = Thrown error "hobj list" | Existing hval | Fresh hobj | FreshExplain hobj

fun realize :: "outcome \<Rightarrow> heap \<Rightarrow> (error + hval) \<times> heap" where
  "realize (Thrown e garbage) B = (Inl e, B @ garbage)"
| "realize (Existing v) B = (Inr v, B)"
| "realize (Fresh ob) B = (Inr (HRef (length B)), B @ [ob])"
| "realize (FreshExplain ob) B =
     (Inr (HRef (Suc (length B))),
      B @ [ob, \<lparr>hclass = ObjectClass, hprops = [(''explain'', HRef (length B))]\<rparr>])"

definition valid_obj :: "heap \<Rightarrow> hobj \<Rightarrow> bool" where
  "valid_obj h ob = list_all (\<lambda>kv. valid_val h (snd kv)) (hprops ob)"

fun valid_outcome :: "heap \<Rightarrow> outcome \<Rightarrow> bool" where
  "valid_outcome h (Thrown e garbage) = True"
| "valid_outcome h (Existing v) = valid_val h v"
| "valid_outcome h (Fresh ob) = valid_obj h ob"
| "valid_outcome h (FreshExplain ob) = valid_obj h ob"

section \<open>The connection\<close>

text \<open>
  Modelled from the spec: the \<open>Connection\<close> component (\<^verbatim>\<open>src/cmap/connection\<close>) is not
  among the sources; only its unit test is. The data model and the dispatch operation
  below follow sections 3 and 4.3 of the specification, and every event is built by the
  constructors of \<^verbatim>\<open>connection/apm.js\<close> embedded above.

  \<^item> A connection has a host address, an optional server-advertised session timeout, a
    load-balanced flag, a lifecycle state, a request-id counter and a table of pending
    waiters keyed by request id. What it has emitted, how it has resolved its callers
    and what was dispatched on it are kept as histories, oldest first.
  \<^item> Time is the clock value passed with every input. A waiter registered with a socket
    timeout carries the clock value at which its window ends.
  \<^item> A socket timeout fires by itself, asynchronously with respect to everything else: a
    window that has ended has fired before anything that happens at or after its end is
    handled. So every step first lets the timeout fire, at the end of the first window
    that has ended, and only then handles its input; an outcome is within the window if
    it arrives before the window ends.
  \<^item> Monitoring decides whether events are built and emitted at all (step 2).
  \<^item> A failed write is a transport error, which is fatal to the connection (section 7):
    it is handled by the same teardown as a timeout, with the write error as the error
    every pending waiter is resolved with.
  \<^item> A connection that is not open is never used again: inputs leave it as it is.
  \<^item> An exception that escapes an event constructor or a translator function escapes the
    step; the specification does not say what the connection does then.
\<close>

datatype lifecycle = OPEN | CLOSING | CLOSED

record dispatch_options =
  noResponse :: bool
  socketTimeout :: "int option"

record waiter =
  w_command :: jsval
  w_started :: int
  w_deadline :: "int option"

datatype resolution = Resolved jsval | Rejected jsval

datatype emitted_event =
    Started started_event
  | Succeeded succeeded_event
  | Failed failed_event

record connection =
  hostAddress :: pool
  logicalSessionTimeoutMinutes :: "int option"
  loadBalanced :: bool
  monitorCommands :: bool
  lifecycle_state :: lifecycle
  requestIdCounter :: nat
  pendingWaiters :: "(nat \<times> waiter) list"
  transportDestroyed :: bool
  emittedEvents :: "emitted_event list"
  callerResolutions :: "(nat \<times> resolution) list"
  dispatchHistory :: "(nat \<times> bool) list"

text \<open>
  Modelled from the spec: \<open>hasSessionSupport\<close> (section 4.3) is true if the connection
  carries a defined session-timeout value, true if it is marked load-balanced, and false
  otherwise; it reads the current state of the connection on every call.
\<close>

definition hasSessionSupport :: "connection \<Rightarrow> bool" where
  "hasSessionSupport conn =
     (if logicalSessionTimeoutMinutes conn \<noteq> None then True
      else if loadBalanced conn then True
      else False)"

text \<open>Modelled from the spec: a connection as the pool creates it.\<close>

definition new_connection :: "pool \<Rightarrow> int option \<Rightarrow> bool \<Rightarrow> bool \<Rightarrow> connection" where
  "new_connection address timeout balanced monitoring =
     \<lparr> hostAddress = address,
       logicalSessionTimeoutMinutes = timeout,
       loadBalanced = balanced,
       monitorCommands = monitoring,
       lifecycle_state = OPEN,
       requestIdCounter = 0,
       pendingWaiters = [],
       transportDestroyed = False,
       emittedEvents = [],
       callerResolutions = [],
       dispatchHistory = [] \<rparr>"

text \<open>
  Modelled from the spec: step 1 gives the command its request id. A command is an
  object; the module runs in strict mode, where setting a property of anything else
  throws.
\<close>

fun assignRequestId :: "jsval \<Rightarrow> nat \<Rightarrow> error + jsval" where
  "assignRequestId (JObj c kvs) rid = Inr (JObj c (setProp kvs ''requestId'' (JNum (int rid))))"
| "assignRequestId v rid = Inl TypeError"

text \<open>
  Modelled from the spec: the error that a timeout resolves callers with, and the three
  updates of the connection's bookkeeping: an event is emitted, a caller is resolved, a
  waiter leaves the table.
\<close>

definition timeout_error :: jsval where
  "timeout_error =
     JObj (OtherClass ''MongoNetworkTimeoutError'') [(''message'', JStr ''connection timed out'')]"

definition emit :: "emitted_event \<Rightarrow> connection \<Rightarrow> connection" where
  "emit e conn = conn\<lparr>emittedEvents := emittedEvents conn @ [e]\<rparr>"

definition resolve :: "nat \<Rightarrow> resolution \<Rightarrow> connection \<Rightarrow> connection" where
  "resolve rid r conn = conn\<lparr>callerResolutions := callerResolutions conn @ [(rid, r)]\<rparr>"

definition remove_waiter :: "nat \<Rightarrow> connection \<Rightarrow> connection" where
  "remove_waiter rid conn =
     conn\<lparr>pendingWaiters := filter (\<lambda>rw. fst rw \<noteq> rid) (pendingWaiters conn)\<rparr>"

text \<open>
  Modelled from the spec: a waiter fails. A Failed event is built and emitted, and the
  caller is resolved with the error.
\<close>

definition fail_waiter :: "int \<Rightarrow> jsval \<Rightarrow> nat \<times> waiter \<Rightarrow> connection \<Rightarrow> error + connection" where
  "fail_waiter now err rw conn =
     bindE (if monitorCommands conn
            then bindE (CommandFailedEvent (hostAddress conn) (w_command (snd rw)) err
                          (w_started (snd rw)) now)
                   (\<lambda>ev. Inr (emit (Failed ev) conn))
            else Inr conn) (\<lambda>conn.
       Inr (resolve (fst rw) (Rejected err) conn))"

text \<open>
  Modelled from the spec: the whole connection is torn down (step 6). Every pending
  waiter fails with the error, in one step; the transport is destroyed and the
  connection is closed.
\<close>

definition teardown :: "int \<Rightarrow> jsval \<Rightarrow> connection \<Rightarrow> error + connection" where
  "teardown now err conn =
     bindE (forEachE (fail_waiter now err) (pendingWaiters conn) conn) (\<lambda>conn.
       Inr (conn\<lparr>pendingWaiters := [], lifecycle_state := CLOSED, transportDestroyed := True\<rparr>))"

text \<open>
  Modelled from the spec: step 2 of \<open>dispatch\<close>. If monitoring is enabled, a Started
  event is built and emitted.
\<close>

definition emit_started :: "jsval \<Rightarrow> connection \<Rightarrow> error + connection" where
  "emit_started cmnd conn =
     (if monitorCommands conn
      then bindE (CommandStartedEvent (hostAddress conn) cmnd) (\<lambda>ev. Inr (emit (Started ev) conn))
      else Inr conn)"

text \<open>
  Modelled from the spec: steps 3 to 5 of \<open>dispatch\<close>, once the command carries the
  request id \<open>rid\<close>. \<open>write_error\<close> is the outcome of the delegated write: \<open>None\<close> when it
  succeeds. A fire-and-forget dispatch resolves its caller with the outcome of the write
  and awaits nothing; any other dispatch registers a waiter.
\<close>

definition write_command ::
  "int \<Rightarrow> jsval \<Rightarrow> dispatch_options \<Rightarrow> jsval option \<Rightarrow> nat \<Rightarrow> connection \<Rightarrow> error + connection" where
  "write_command now cmnd opts write_error rid conn =
     (if noResponse opts then
        (case write_error of
           None \<Rightarrow> Inr (resolve rid (Resolved JUndefined) conn)
         | Some e \<Rightarrow> teardown now e (resolve rid (Rejected e) conn))
      else
        let w = \<lparr>w_command = cmnd, w_started = now,
                 w_deadline = map_option (\<lambda>t. now + t) (socketTimeout opts)\<rparr>;
            conn' = conn\<lparr>pendingWaiters := pendingWaiters conn @ [(rid, w)]\<rparr>
        in (case write_error of
              None \<Rightarrow> Inr conn'
            | Some e \<Rightarrow> teardown now e conn'))"

text \<open>Modelled from the spec: \<open>dispatch\<close>, steps 1 to 5.\<close>

definition dispatch ::
  "int \<Rightarrow> jsval \<Rightarrow> dispatch_options \<Rightarrow> jsval option \<Rightarrow> connection \<Rightarrow> error + connection" where
  "dispatch now cmnd opts write_error conn =
     (if lifecycle_state conn \<noteq> OPEN then Inr conn
      else
        bindE (assignRequestId cmnd (requestIdCounter conn)) (\<lambda>cmnd'.
        bindE (emit_started cmnd' conn) (\<lambda>conn1.
          write_command now cmnd' opts write_error (requestIdCounter conn)
            (conn1\<lparr>requestIdCounter := Suc (requestIdCounter conn),
                   dispatchHistory :=
                     dispatchHistory conn1 @ [(requestIdCounter conn, noResponse opts)]\<rparr>))))"

text \<open>
  Modelled from the spec: a reply arrives for a request (step 5). It is normalized, a
  Succeeded event is built and emitted, and the caller is resolved with the normalized
  result. A reply that no waiter is waiting for changes nothing.
\<close>

definition emit_succeeded :: "int \<Rightarrow> waiter \<Rightarrow> jsval \<Rightarrow> connection \<Rightarrow> error + connection" where
  "emit_succeeded now w rply conn =
     (if monitorCommands conn
      then bindE (CommandSucceededEvent (hostAddress conn) (w_command w) rply (w_started w) now)
             (\<lambda>ev. Inr (emit (Succeeded ev) conn))
      else Inr conn)"

definition receive_reply :: "int \<Rightarrow> nat \<Rightarrow> jsval \<Rightarrow> connection \<Rightarrow> error + connection" where
  "receive_reply now rid rply conn =
     (if lifecycle_state conn \<noteq> OPEN then Inr conn
      else case map_of (pendingWaiters conn) rid of
        None \<Rightarrow> Inr conn
      | Some w \<Rightarrow>
          bindE (extractReply (w_command w) rply) (\<lambda>result.
          bindE (emit_succeeded now w rply conn) (\<lambda>conn1.
            Inr (resolve rid (Resolved result) (remove_waiter rid conn1)))))"

text \<open>
  Modelled from the spec: an error arrives for one request and leaves the stream usable
  (step 5, and the protocol and server errors of section 7).
\<close>

definition receive_error :: "int \<Rightarrow> nat \<Rightarrow> jsval \<Rightarrow> connection \<Rightarrow> error + connection" where
  "receive_error now rid err conn =
     (if lifecycle_state conn \<noteq> OPEN then Inr conn
      else case map_of (pendingWaiters conn) rid of
        None \<Rightarrow> Inr conn
      | Some w \<Rightarrow> bindE (fail_waiter now err (rid, w) conn) (\<lambda>conn1.
                    Inr (remove_waiter rid conn1)))"

text \<open>
  Modelled from the spec: the socket timeout (step 6). \<open>first_deadline\<close> is the end of the
  window that ends first among the pending waiters. If that window has ended without an
  outcome when the clock reads \<open>now\<close>, the timeout has fired at its end: the connection
  is torn down with a timeout error.
\<close>

definition deadlines :: "(nat \<times> waiter) list \<Rightarrow> int list" where
  "deadlines ws = concat (map (\<lambda>rw. case w_deadline (snd rw) of None \<Rightarrow> [] | Some d \<Rightarrow> [d]) ws)"

definition first_deadline :: "(nat \<times> waiter) list \<Rightarrow> int option" where
  "first_deadline ws = (case deadlines ws of [] \<Rightarrow> None | d # ds \<Rightarrow> Some (fold min ds d))"

definition tick :: "int \<Rightarrow> connection \<Rightarrow> error + connection" where
  "tick now conn =
     (if lifecycle_state conn \<noteq> OPEN then Inr conn
      else case first_deadline (pendingWaiters conn) of
        None \<Rightarrow> Inr conn
      | Some d \<Rightarrow> if d \<le> now then teardown d timeout_error conn else Inr conn)"

text \<open>
  Modelled from the spec: what can happen to a connection, each with the clock value at
  which it happens: a dispatch, a reply or an error for a request, or nothing but the
  passing of time. \<open>handle\<close> is what the input itself does; a \<open>step\<close> is the timeout that
  may have fired by then, followed by the input; a run of inputs stops at the first
  exception.
\<close>

datatype input =
    Dispatch jsval dispatch_options "jsval option"
  | Reply nat jsval
  | Fail nat jsval
  | Tick

fun handle :: "connection \<Rightarrow> int \<times> input \<Rightarrow> error + connection" where
  "handle conn (now, Dispatch cmnd opts write_error) = dispatch now cmnd opts write_error conn"
| "handle conn (now, Reply rid rply) = receive_reply now rid rply conn"
| "handle conn (now, Fail rid err) = receive_error now rid err conn"
| "handle conn (now, Tick) = Inr conn"

fun step :: "connection \<Rightarrow> int \<times> input \<Rightarrow> error + connection" where
  "step conn (now, inp) = bindE (tick now conn) (\<lambda>conn'. handle conn' (now, inp))"

fun run :: "connection \<Rightarrow> (int \<times> input) list \<Rightarrow> error + connection" where
  "run conn [] = Inr conn"
| "run conn (i # inputs) = bindE (step conn i) (\<lambda>conn'. run conn' inputs)"

text \<open>What has been emitted for a request id, by kind of event.\<close>

fun started_for :: "nat \<Rightarrow> emitted_event \<Rightarrow> bool" where
  "started_for rid (Started ev) = (requestId ev = JNum (int rid))"
| "started_for rid e = False"

fun succeeded_for :: "nat \<Rightarrow> emitted_event \<Rightarrow> bool" where
  "succeeded_for rid (Succeeded ev) = (requestId ev = JNum (int rid))"
| "succeeded_for rid e = False"

fun failed_for :: "nat \<Rightarrow> emitted_event \<Rightarrow> bool" where
  "failed_for rid (Failed ev) = (requestId ev = JNum (int rid))"
| "failed_for rid e = False"

fun event_connectionId :: "emitted_event \<Rightarrow> string" where
  "event_connectionId (Started ev) = connectionId ev"
| "event_connectionId (Succeeded ev) = connectionId ev"
| "event_connectionId (Failed ev) = connectionId ev"

definition count_events :: "(emitted_event \<Rightarrow> bool) \<Rightarrow> connection \<Rightarrow> nat" where
  "count_events p conn = length (filter p (emittedEvents conn))"

definition is_pending :: "nat \<Rightarrow> connection \<Rightarrow> bool" where
  "is_pending rid conn = (rid \<in> fst ` set (pendingWaiters conn))"


section \<open>Notions for reasoning about the connection\<close>

text \<open>
  \<open>dispatched_state\<close> is the connection after steps 1 to 5 of a dispatch, before any
  teardown caused by a failed write. \<open>failed_events_for conn evs ws\<close>: \<open>evs\<close> are the
  Failed events that failing the waiters \<open>ws\<close> emits, one for each when monitoring is
  enabled and none otherwise. \<open>wait_inv\<close> is the invariant of the table of waiters, and
  \<open>ev_inv\<close> that of the emitted events of a monitored connection.
\<close>

definition failed_events_for :: "connection \<Rightarrow> failed_event list \<Rightarrow> (nat \<times> waiter) list \<Rightarrow> bool" where
  "failed_events_for conn evs ws =
     (if monitorCommands conn
      then list_all2 (\<lambda>ev rw. requestId ev = getv (w_command (snd rw)) ''requestId'' \<and>
                               connectionId ev = generateConnectionId (hostAddress conn)) evs ws
      else evs = [])"

definition wait_inv :: "connection \<Rightarrow> bool" where
  "wait_inv conn \<longleftrightarrow>
     distinct (map fst (pendingWaiters conn)) \<and>
     map fst (dispatchHistory conn) = [0..<requestIdCounter conn] \<and>
     (lifecycle_state conn \<noteq> OPEN \<longrightarrow> pendingWaiters conn = []) \<and>
     (\<forall>rw \<in> set (pendingWaiters conn).
        (fst rw, False) \<in> set (dispatchHistory conn) \<and>
        getv (w_command (snd rw)) ''requestId'' = JNum (int (fst rw)) \<and>
        (monitorCommands conn \<longrightarrow> (\<exists>cmd. extractCommand (w_command (snd rw)) = Inr cmd)))"

definition ev_inv :: "pool \<Rightarrow> connection \<Rightarrow> bool" where
  "ev_inv addr conn \<longleftrightarrow>
     hostAddress conn = addr \<and> monitorCommands conn \<and>
     (\<forall>r. count_events (started_for r) conn = (if r < requestIdCounter conn then 1 else 0)) \<and>
     (\<forall>r. count_events (succeeded_for r) conn + count_events (failed_for r) conn =
          (if (r, False) \<in> set (dispatchHistory conn) \<and> \<not> is_pending r conn then 1 else 0)) \<and>
     (\<forall>e \<in> set (emittedEvents conn). event_connectionId e = generateConnectionId addr)"

definition dispatched_state ::
  "int \<Rightarrow> jsval \<Rightarrow> dispatch_options \<Rightarrow> jsval option \<Rightarrow> started_event list \<Rightarrow> connection \<Rightarrow> connection" where
  "dispatched_state now cmnd' opts write_error evs conn =
     conn\<lparr>emittedEvents := emittedEvents conn @ map Started evs,
           requestIdCounter := Suc (requestIdCounter conn),
           dispatchHistory := dispatchHistory conn @ [(requestIdCounter conn, noResponse opts)],
           callerResolutions := callerResolutions conn @
             (if noResponse opts
              then [(requestIdCounter conn,
                     case write_error of None \<Rightarrow> Resolved JUndefined | Some e \<Rightarrow> Rejected e)]
              else []),
           pendingWaiters := pendingWaiters conn @
             (if noResponse opts then []
              else [(requestIdCounter conn,
                     \<lparr>w_command = cmnd', w_started = now,
                      w_deadline = map_option (\<lambda>t. now + t) (socketTimeout opts)\<rparr>)])\<rparr>"

text \<open>
  \<open>res_inv\<close> is the invariant of the callers' resolutions: no caller is resolved twice,
  and a request whose caller is resolved was dispatched and is no longer pending.
\<close>

definition res_inv :: "connection \<Rightarrow> bool" where
  "res_inv conn \<longleftrightarrow>
     distinct (map fst (callerResolutions conn)) \<and>
     (\<forall>x \<in> set (callerResolutions conn).
        fst x < requestIdCounter conn \<and> \<not> is_pending (fst x) conn)"

section \<open>Concrete inputs\<close>

text \<open>Commands, replies and a pool on which the properties below are evaluated.\<close>

definition localhost :: pool where
  "localhost = \<lparr>options = \<lparr>host = JStr ''localhost'', port = JNum 27017\<rparr>\<rparr>"

definition authenticate_command :: jsval where
  "authenticate_command =
     JObj (OtherClass ''Query'')
       [(''ns'', JStr ''admin.$cmd''),
        (''query'', JObj ObjectClass
           [(''authenticate'', JNum 1), (''user'', JStr ''alice''), (''key'', JStr ''s3cret'')]),
        (''requestId'', JNum 7)]"

definition ping_command :: jsval where
  "ping_command =
     JObj (OtherClass ''Query'')
       [(''ns'', JStr ''admin.$cmd''),
        (''query'', JObj ObjectClass [(''ping'', JNum 1)]),
        (''requestId'', JNum 8)]"

definition ok_reply :: jsval where
  "ok_reply = JObj ObjectClass [(''result'', JObj ObjectClass [(''ok'', JNum 1)])]"

definition legacy_find_example :: jsval where
  "legacy_find_example =
     JObj ObjectClass
       [(''query'', JObj ObjectClass
           [(''$query'', JObj ObjectClass [(''a'', JNum 1)]),
            (''$orderby'', JObj ObjectClass [(''b'', JNum 1)])]),
        (''options'', JObj ObjectClass
           [(''numberToSkip'', JNum 5), (''numberToReturn'', JNum 10)]),
        (''ns'', JStr ''db.coll'')]"

definition legacy_find_all_fields :: jsval where
  "legacy_find_all_fields =
     JObj ObjectClass
       [(''query'', JObj ObjectClass
           [(''$query'', JObj ObjectClass [(''a'', JNum 1)]),
            (''$orderby'', JObj ObjectClass [(''b'', JNum 1)]),
            (''$hint'', JStr ''a_1''),
            (''$comment'', JStr ''slow''),
            (''$maxScan'', JNum 100),
            (''$max'', JObj ObjectClass [(''a'', JNum 9)]),
            (''$min'', JObj ObjectClass [(''a'', JNum 0)]),
            (''$returnKey'', JBool False),
            (''$showDiskLoc'', JBool True),
            (''$maxTimeMS'', JNum 500),
            (''$snapshot'', JBool True),
            (''$natural'', JNum 1)]),
        (''options'', JObj ObjectClass
           [(''numberToSkip'', JNum 0), (''numberToReturn'', JNum 10),
            (''returnFieldsSelector'', JObj ObjectClass [(''a'', JNum 1)]),
            (''checkKeys'', JBool False)]),
        (''ns'', JStr ''db.coll''),
        (''tailable'', JBool True),
        (''oplogReplay'', JBool False),
        (''noCursorTimeout'', JBool True),
        (''awaitData'', JNum 0),
        (''partial'', JNum 1),
        (''slaveOk'', JBool True),
        (''pre32Limit'', JNum 7)]"

definition legacy_find_all_fields_result :: jsval where
  "legacy_find_all_fields_result =
     JObj ObjectClass
       [(''find'', JStr ''coll''),
        (''filter'', JObj ObjectClass [(''a'', JNum 1)]),
        (''sort'', JObj ObjectClass [(''b'', JNum 1)]),
        (''hint'', JStr ''a_1''),
        (''comment'', JStr ''slow''),
        (''maxScan'', JNum 100),
        (''max'', JObj ObjectClass [(''a'', JNum 9)]),
        (''min'', JObj ObjectClass [(''a'', JNum 0)]),
        (''returnKey'', JBool False),
        (''showRecordId'', JBool True),
        (''maxTimeMS'', JNum 500),
        (''snapshot'', JBool True),
        (''skip'', JNum 0),
        (''batchSize'', JNum 10),
        (''projection'', JObj ObjectClass [(''a'', JNum 1)]),
        (''tailable'', JBool True),
        (''noCursorTimeout'', JBool True),
        (''partial'', JNum 1),
        (''limit'', JNum 7)]"

definition legacy_find_explained :: jsval where
  "legacy_find_explained =
     JObj ObjectClass
       [(''query'', JObj ObjectClass
           [(''$query'', JObj ObjectClass []), (''$maxTimeMS'', JNum 20),
            (''$explain'', JBool True)]),
        (''options'', JObj ObjectClass
           [(''returnFieldsSelector'', JObj ObjectClass [(''b'', JNum 0)])]),
        (''ns'', JStr ''db.coll''),
        (''tailable'', JBool False),
        (''awaitData'', JBool True),
        (''exhaust'', JStr ''yes''),
        (''oplogReplay'', JStr []),
        (''pre32Limit'', JNum 3)]"

definition getMore_example :: jsval where
  "getMore_example =
     JObj GetMore [(''cursorId'', JNum 123), (''ns'', JStr ''db.coll''), (''numberToReturn'', JNum 50)]"

definition killCursors_example :: jsval where
  "killCursors_example =
     JObj KillCursor [(''ns'', JStr ''db.coll''), (''cursorIds'', JArr [JNum 1, JNum 2])]"

definition cursor_reply :: jsval where
  "cursor_reply =
     JObj ObjectClass
       [(''message'', JObj ObjectClass
           [(''cursorId'', JNum 99), (''documents'', JArr [JObj ObjectClass [(''a'', JNum 1)]])])]"

definition server_error :: jsval where
  "server_error = JObj (OtherClass ''MongoError'') [(''message'', JStr ''auth failed''), (''code'', JNum 18)]"

definition legacy_find_no_separator :: jsval where
  "legacy_find_no_separator =
     JObj ObjectClass
       [(''query'', JObj ObjectClass
           [(''$query'', JObj ObjectClass [(''a'', JNum 1)]), (''$explain'', JBool True)]),
        (''options'', JObj ObjectClass []),
        (''ns'', JStr ''db'')]"

definition getMore_no_separator :: jsval where
  "getMore_no_separator =
     JObj GetMore [(''cursorId'', JNum 123), (''ns'', JStr ''db''), (''numberToReturn'', JNum 50)]"

definition killCursors_no_separator :: jsval where
  "killCursors_no_separator =
     JObj KillCursor [(''ns'', JStr ''db''), (''cursorIds'', JArr [JNum 1, JNum 2])]"

text \<open>
  The legacy find \<open>{query: {$query: {a: 1}, $orderby: {b: 1}}, options: {numberToSkip: 5,
  numberToReturn: 10}, ns: 'db.coll'}\<close> laid out in a store, the command at address 0,
  and the object that its upconversion allocates.
\<close>

definition legacy_find_heap :: heap where
  "legacy_find_heap =
     [\<lparr>hclass = ObjectClass,
       hprops = [(''query'', HRef 1), (''options'', HRef 4), (''ns'', HStr ''db.coll'')]\<rparr>,
      \<lparr>hclass = ObjectClass, hprops = [(''$query'', HRef 2), (''$orderby'', HRef 3)]\<rparr>,
      \<lparr>hclass = ObjectClass, hprops = [(''a'', HNum 1)]\<rparr>,
      \<lparr>hclass = ObjectClass, hprops = [(''b'', HNum 1)]\<rparr>,
      \<lparr>hclass = ObjectClass,
       hprops = [(''numberToSkip'', HNum 5), (''numberToReturn'', HNum 10)]\<rparr>]"

definition legacy_find_result :: hobj where
  "legacy_find_result =
     \<lparr>hclass = ObjectClass,
      hprops = [(''find'', HStr ''coll''), (''filter'', HRef 2), (''sort'', HRef 3),
                (''skip'', HNum 5), (''batchSize'', HNum 10)]\<rparr>"

text \<open>
  A ping dispatched on a monitored connection to \<open>localhost:27017\<close>, and the connections
  that the runs evaluated below end in.
\<close>

definition ping_request :: jsval where
  "ping_request =
     JObj (OtherClass ''Query'')
       [(''ns'', JStr ''admin.$cmd''), (''query'', JObj ObjectClass [(''ping'', JNum 1)])]"

definition await_reply :: dispatch_options where
  "await_reply = \<lparr>noResponse = False, socketTimeout = None\<rparr>"

definition ping_started :: "int \<Rightarrow> started_event" where
  "ping_started rid =
     \<lparr>commandName = JStr ''ping'', requestId = JNum rid, connectionId = ''localhost:27017'',
      commandObj = None, command = JObj ObjectClass [(''ping'', JNum 1)],
      databaseName = JStr ''admin''\<rparr>"

definition ping_failed :: "int \<Rightarrow> int \<Rightarrow> failed_event" where
  "ping_failed rid d =
     \<lparr>commandName = JStr ''ping'', requestId = JNum rid, connectionId = ''localhost:27017'',
      duration = d, failure = timeout_error\<rparr>"

definition replied_connection :: connection where
  "replied_connection =
     \<lparr>hostAddress = localhost, logicalSessionTimeoutMinutes = None, loadBalanced = False,
      monitorCommands = True, lifecycle_state = OPEN, requestIdCounter = 1,
      pendingWaiters = [], transportDestroyed = False,
      emittedEvents =
        [Started (ping_started 0),
         Succeeded \<lparr>commandName = JStr ''ping'', requestId = JNum 0,
                    connectionId = ''localhost:27017'', duration = 5,
                    reply = JObj ObjectClass [(''ok'', JNum 1)]\<rparr>],
      callerResolutions = [(0, Resolved (JObj ObjectClass [(''ok'', JNum 1)]))],
      dispatchHistory = [(0, False)]\<rparr>"

definition ping_waiter :: "int \<Rightarrow> int \<Rightarrow> int option \<Rightarrow> waiter" where
  "ping_waiter rid t d =
     \<lparr>w_command = JObj (OtherClass ''Query'')
        [(''ns'', JStr ''admin.$cmd''), (''query'', JObj ObjectClass [(''ping'', JNum 1)]),
         (''requestId'', JNum rid)],
      w_started = t, w_deadline = d\<rparr>"

definition one_pending_connection :: connection where
  "one_pending_connection =
     \<lparr>hostAddress = localhost, logicalSessionTimeoutMinutes = None, loadBalanced = False,
      monitorCommands = True, lifecycle_state = OPEN, requestIdCounter = 1,
      pendingWaiters = [(0, ping_waiter 0 0 None)], transportDestroyed = False,
      emittedEvents = [Started (ping_started 0)],
      callerResolutions = [],
      dispatchHistory = [(0, False)]\<rparr>"

definition two_pending_connection :: connection where
  "two_pending_connection =
     \<lparr>hostAddress = localhost, logicalSessionTimeoutMinutes = None, loadBalanced = False,
      monitorCommands = True, lifecycle_state = OPEN, requestIdCounter = 2,
      pendingWaiters = [(0, ping_waiter 0 0 None), (1, ping_waiter 1 10 (Some 60))],
      transportDestroyed = False,
      emittedEvents = [Started (ping_started 0), Started (ping_started 1)],
      callerResolutions = [],
      dispatchHistory = [(0, False), (1, False)]\<rparr>"

definition timed_out_connection :: connection where
  "timed_out_connection =
     \<lparr>hostAddress = localhost, logicalSessionTimeoutMinutes = None, loadBalanced = False,
      monitorCommands = True, lifecycle_state = CLOSED, requestIdCounter = 2,
      pendingWaiters = [], transportDestroyed = True,
      emittedEvents =
        [Started (ping_started 0), Started (ping_started 1),
         Failed (ping_failed 0 60), Failed (ping_failed 1 50)],
      callerResolutions = [(0, Rejected timeout_error), (1, Rejected timeout_error)],
      dispatchHistory = [(0, False), (1, False)]\<rparr>"

definition fire_and_forget :: dispatch_options where
  "fire_and_forget = \<lparr>noResponse = True, socketTimeout = None\<rparr>"

definition forgotten_connection :: connection where
  "forgotten_connection =
     \<lparr>hostAddress = localhost, logicalSessionTimeoutMinutes = None, loadBalanced = False,
      monitorCommands = True, lifecycle_state = OPEN, requestIdCounter = 1,
      pendingWaiters = [], transportDestroyed = False,
      emittedEvents = [Started (ping_started 0)],
      callerResolutions = [(0, Resolved JUndefined)],
      dispatchHistory = [(0, True)]\<rparr>"

section \<open>Basic facts about the embedding\<close>

lemma bindE_Inr [simp]: "bindE (Inr x) f = f x"
  by (simp add: bindE_def)

lemma bindE_Inl [simp]: "bindE (Inl e) f = Inl e"
  by (simp add: bindE_def)

lemma getProp_getv: "\<not> nullish v \<Longrightarrow> getProp v k = Inr (getv v k)"
  by (cases v) (simp_all add: getv_def nullish_def)

lemma truthy_not_nullish: "truthy v \<Longrightarrow> \<not> nullish v"
  by (cases v) (simp_all add: nullish_def)

lemma setProp_fresh: "k \<notin> fst ` set ps \<Longrightarrow> setProp ps k v = ps @ [(k, v)]"
  by (induction ps) auto

lemma forEachE_copy_defined:
  assumes "getProp cmnd field = Inr src" and "\<not> nullish src"
  shows "distinct (map snd table) \<Longrightarrow> snd ` set table \<inter> fst ` set result = {} \<Longrightarrow>
    forEachE (copy_defined cmnd field) table result = Inr (result @ copied_defined src table)"
proof (induction table arbitrary: result)
  case Nil
  then show ?case by (simp add: copied_defined_def)
next
  case (Cons e table)
  have step: "copy_defined cmnd field e result =
      Inr (if getv src (fst e) \<noteq> JUndefined then result @ [(snd e, getv src (fst e))] else result)"
    using assms Cons.prems by (simp add: copy_defined_def getProp_getv setProp_fresh)
  show ?case
  proof (cases "getv src (fst e) \<noteq> JUndefined")
    case True
    have "forEachE (copy_defined cmnd field) table (result @ [(snd e, getv src (fst e))]) =
        Inr ((result @ [(snd e, getv src (fst e))]) @ copied_defined src table)"
      using Cons.prems by (intro Cons.IH) auto
    with True step show ?thesis by (simp add: copied_defined_def)
  next
    case False
    have "forEachE (copy_defined cmnd field) table result = Inr (result @ copied_defined src table)"
      using Cons.prems by (intro Cons.IH) auto
    with False step show ?thesis by (simp add: copied_defined_def)
  qed
qed

lemma forEachE_copy_truthy:
  assumes "\<not> nullish cmnd"
  shows "distinct keys \<Longrightarrow> set keys \<inter> fst ` set result = {} \<Longrightarrow>
    forEachE (copy_truthy cmnd) keys result = Inr (result @ copied_truthy cmnd keys)"
proof (induction keys arbitrary: result)
  case Nil
  then show ?case by (simp add: copied_truthy_def)
next
  case (Cons k keys)
  have step: "copy_truthy cmnd k result =
      Inr (if truthy (getv cmnd k) then result @ [(k, getv cmnd k)] else result)"
    using assms Cons.prems by (simp add: copy_truthy_def getProp_getv setProp_fresh)
  show ?case
  proof (cases "truthy (getv cmnd k)")
    case True
    have "forEachE (copy_truthy cmnd) keys (result @ [(k, getv cmnd k)]) =
        Inr ((result @ [(k, getv cmnd k)]) @ copied_truthy cmnd keys)"
      using Cons.prems by (intro Cons.IH) auto
    with True step show ?thesis by (simp add: copied_truthy_def)
  next
    case False
    have "forEachE (copy_truthy cmnd) keys result = Inr (result @ copied_truthy cmnd keys)"
      using Cons.prems by (intro Cons.IH) auto
    with False step show ?thesis by (simp add: copied_truthy_def)
  qed
qed

lemma keys_copied_defined: "fst ` set (copied_defined src table) \<subseteq> snd ` set table"
  by (force simp: copied_defined_def)

lemma keys_copied_truthy: "fst ` set (copied_truthy src keys) \<subseteq> set keys"
  by (auto simp: copied_truthy_def)

lemma spec_tables:
  "query_modifiers_spec = LEGACY_FIND_QUERY_MAP"
  "legacy_options_spec = LEGACY_FIND_OPTIONS_MAP"
  "boolean_flags_spec = OP_QUERY_KEYS"
  by (simp_all add: query_modifiers_spec_def legacy_options_spec_def boolean_flags_spec_def
      LEGACY_FIND_QUERY_MAP_def LEGACY_FIND_OPTIONS_MAP_def OP_QUERY_KEYS_def)

lemma upconvert_legacy_find_eq:
  assumes q: "truthy (getv cmnd ''query'')"
    and o: "\<not> nullish (getv cmnd ''options'')"
    and n: "getv cmnd ''ns'' = JStr ns"
  shows "upconvert_legacy_find cmnd =
     Inr (if truthy (getv (getv cmnd ''query'') ''$explain'')
          then JObj ObjectClass [(''explain'', JObj ObjectClass (legacy_find_fields_spec cmnd))]
          else JObj ObjectClass (legacy_find_fields_spec cmnd))"
proof -
  have c: "\<not> nullish cmnd"
    using q by (cases cmnd) (auto simp: nullish_def getv_def)
  have gq: "getProp cmnd ''query'' = Inr (getv cmnd ''query'')"
    and go: "getProp cmnd ''options'' = Inr (getv cmnd ''options'')"
    and gn: "getProp cmnd ''ns'' = Inr (JStr ns)"
    using c n by (simp_all add: getProp_getv)
  have nq: "\<not> nullish (getv cmnd ''query'')"
    using q by (rule truthy_not_nullish)
  let ?find = "(''find'', nth_or_undefined (map JStr (split_str CHR ''.'' ns)) 1)"
  let ?r1 = "?find # copied_defined (getv cmnd ''query'') LEGACY_FIND_QUERY_MAP"
  let ?r2 = "?r1 @ copied_defined (getv cmnd ''options'') LEGACY_FIND_OPTIONS_MAP"
  let ?r3 = "?r2 @ copied_truthy cmnd OP_QUERY_KEYS"
  have l1: "forEachE (copy_defined cmnd ''query'') LEGACY_FIND_QUERY_MAP [?find] = Inr ?r1"
    using forEachE_copy_defined [OF gq nq, of LEGACY_FIND_QUERY_MAP "[?find]"]
    by (simp add: LEGACY_FIND_QUERY_MAP_def)
  have k1: "fst ` set ?r1 \<subseteq> insert ''find'' (snd ` set LEGACY_FIND_QUERY_MAP)"
    using keys_copied_defined [of "getv cmnd ''query''" LEGACY_FIND_QUERY_MAP] by auto
  have d2: "snd ` set LEGACY_FIND_OPTIONS_MAP \<inter> fst ` set ?r1 = {}"
  proof -
    have "snd ` set LEGACY_FIND_OPTIONS_MAP \<inter> insert ''find'' (snd ` set LEGACY_FIND_QUERY_MAP) = {}"
      by (simp add: LEGACY_FIND_OPTIONS_MAP_def LEGACY_FIND_QUERY_MAP_def)
    with k1 show ?thesis by blast
  qed
  have l2: "forEachE (copy_defined cmnd ''options'') LEGACY_FIND_OPTIONS_MAP ?r1 = Inr ?r2"
    using forEachE_copy_defined [OF go o _ d2]
    by (simp add: LEGACY_FIND_OPTIONS_MAP_def)
  have k2: "fst ` set ?r2 \<subseteq>
      insert ''find'' (snd ` set LEGACY_FIND_QUERY_MAP \<union> snd ` set LEGACY_FIND_OPTIONS_MAP)"
    using k1 keys_copied_defined [of "getv cmnd ''options''" LEGACY_FIND_OPTIONS_MAP] by auto
  have d3: "set OP_QUERY_KEYS \<inter> fst ` set ?r2 = {}"
  proof -
    have "set OP_QUERY_KEYS \<inter>
        insert ''find'' (snd ` set LEGACY_FIND_QUERY_MAP \<union> snd ` set LEGACY_FIND_OPTIONS_MAP) = {}"
      by (simp add: LEGACY_FIND_OPTIONS_MAP_def LEGACY_FIND_QUERY_MAP_def OP_QUERY_KEYS_def)
    with k2 show ?thesis by blast
  qed
  have l3: "forEachE (copy_truthy cmnd) OP_QUERY_KEYS ?r2 = Inr ?r3"
    using forEachE_copy_truthy [OF c _ d3] by (simp add: OP_QUERY_KEYS_def)
  have k3: "fst ` set ?r3 \<subseteq>
      insert ''find'' (snd ` set LEGACY_FIND_QUERY_MAP \<union> snd ` set LEGACY_FIND_OPTIONS_MAP
        \<union> set OP_QUERY_KEYS)"
    using k2 keys_copied_truthy [of cmnd OP_QUERY_KEYS] by auto
  have d4: "''limit'' \<notin> fst ` set ?r3"
  proof -
    have "''limit'' \<notin> insert ''find'' (snd ` set LEGACY_FIND_QUERY_MAP
        \<union> snd ` set LEGACY_FIND_OPTIONS_MAP \<union> set OP_QUERY_KEYS)"
      by (simp add: LEGACY_FIND_OPTIONS_MAP_def LEGACY_FIND_QUERY_MAP_def OP_QUERY_KEYS_def)
    with k3 show ?thesis by blast
  qed
  have l4: "setProp ?r3 ''limit'' v = ?r3 @ [(''limit'', v)]" for v
    using d4 by (rule setProp_fresh)
  have f: "legacy_find_fields_spec cmnd = ?r3 @
      (if getv cmnd ''pre32Limit'' \<noteq> JUndefined then [(''limit'', getv cmnd ''pre32Limit'')] else [])"
    by (simp add: legacy_find_fields_spec_def n spec_tables)
  show ?thesis
    unfolding upconvert_legacy_find_def
    by (simp only: getProp_getv [OF c] n bindE_Inr split.simps l1 l2 l3 getProp_getv [OF nq] l4 f
          if_distrib [of "\<lambda>r. bindE (Inr r) g" for g] if_distrib [of Inr] if_distrib [of "JObj ObjectClass"])
       simp
qed

lemma bindE_eq_Inr: "bindE m f = Inr y \<longleftrightarrow> (\<exists>x. m = Inr x \<and> f x = Inr y)"
  by (cases m) simp_all

lemma upconvert_legacy_find_obj:
  "upconvert_legacy_find cmnd = Inr cmd \<Longrightarrow> \<exists>kvs. cmd = JObj ObjectClass kvs"
  unfolding upconvert_legacy_find_def
  by (auto simp: bindE_eq_Inr split: if_splits)

lemma extractCommand_not_nullish:
  assumes "extractCommand cmnd = Inr cmd"
  shows "\<not> nullish cmnd" and "\<not> nullish cmd"
proof -
  show c: "\<not> nullish cmnd"
    using assms unfolding extractCommand_def is_legacy_find_def
    by (cases cmnd) (auto simp: nullish_def)
  show "\<not> nullish cmd"
  proof (cases "instanceof cmnd GetMore \<or> instanceof cmnd KillCursor")
    case True
    then show ?thesis
      using assms unfolding extractCommand_def
      by (auto simp: bindE_eq_Inr nullish_def split: if_splits)
  next
    case False
    then have e: "bindE (is_legacy_find cmnd) (\<lambda>legacy.
          if legacy then upconvert_legacy_find cmnd
          else bindE (getProp cmnd ''query'') (\<lambda>query.
                 Inr (if truthy query then query else cmnd))) = Inr cmd"
      using assms unfolding extractCommand_def by simp
    then obtain legacy where l: "is_legacy_find cmnd = Inr legacy"
      and r: "(if legacy then upconvert_legacy_find cmnd
          else bindE (getProp cmnd ''query'') (\<lambda>query.
                 Inr (if truthy query then query else cmnd))) = Inr cmd"
      by (auto simp: bindE_eq_Inr)
    show ?thesis
    proof (cases legacy)
      case True
      with r obtain kvs where "cmd = JObj ObjectClass kvs"
        using upconvert_legacy_find_obj by auto
      then show ?thesis by (simp add: nullish_def)
    next
      case False
      with r obtain query where "cmd = (if truthy query then query else cmnd)"
        by (auto simp: bindE_eq_Inr)
      then show ?thesis
        using c truthy_not_nullish by (auto split: if_splits)
    qed
  qed
qed

lemma objectKeys_total: "\<not> nullish v \<Longrightarrow> \<exists>ks. objectKeys v = Inr ks"
  by (cases v) (simp_all add: nullish_def)

lemma extractCommandName_total: "\<not> nullish v \<Longrightarrow> \<exists>name. extractCommandName v = Inr name"
  using objectKeys_total [of v] by (auto simp: extractCommandName_def)

lemmas translator_defs =
  extractCommand_def extractReply_def is_legacy_find_def upconvert_legacy_find_def
  copy_defined_def copy_truthy_def lookup_prop_def nth_or_undefined_def
  LEGACY_FIND_QUERY_MAP_def LEGACY_FIND_OPTIONS_MAP_def OP_QUERY_KEYS_def

lemmas factory_defs =
  CommandStartedEvent_def CommandSucceededEvent_def CommandFailedEvent_def
  extractCommandName_def generateConnectionId_def maybeRedact_def calculateDuration_def
  SENSITIVE_COMMANDS_def string_of_int_def string_of_nat.simps digit_char_def

lemmas example_defs = localhost_def authenticate_command_def ping_command_def ok_reply_def

lemma connectionId_localhost: "generateConnectionId localhost = ''localhost:27017''"
  by (simp add: factory_defs example_defs)

lemma split_str_no_sep: "c \<notin> set s \<Longrightarrow> split_str c s = [s]"
  by (induction s) auto

lemma is_legacy_find_eq:
  "\<not> nullish cmnd \<Longrightarrow> is_legacy_find cmnd =
     Inr (truthy (getv cmnd ''query'') \<and> getv (getv cmnd ''query'') ''$query'' \<noteq> JUndefined)"
  unfolding is_legacy_find_def
  by (simp add: getProp_getv truthy_not_nullish)

lemma getv_not_nullish: "getv v k \<noteq> JUndefined \<Longrightarrow> \<not> nullish v"
  by (cases v) (simp_all add: getv_def nullish_def)

lemma instanceof_not_nullish: "instanceof v c \<Longrightarrow> \<not> nullish v"
  by (cases v) (simp_all add: nullish_def)

lemma instanceof_GetMore_not_KillCursor: "instanceof v GetMore \<Longrightarrow> \<not> instanceof v KillCursor"
  by (cases v) auto

lemma extractCommand_legacy_find:
  assumes "\<not> instanceof cmnd GetMore" and "\<not> instanceof cmnd KillCursor"
    and q: "truthy (getv cmnd ''query'')"
    and "getv (getv cmnd ''query'') ''$query'' \<noteq> JUndefined"
    and "\<not> nullish (getv cmnd ''options'')"
    and "getv cmnd ''ns'' = JStr ns"
  shows "extractCommand cmnd =
     Inr (if truthy (getv (getv cmnd ''query'') ''$explain'')
          then JObj ObjectClass [(''explain'', JObj ObjectClass (legacy_find_fields_spec cmnd))]
          else JObj ObjectClass (legacy_find_fields_spec cmnd))"
proof -
  have "getv cmnd ''query'' \<noteq> JUndefined"
    using q by auto
  then have "\<not> nullish cmnd"
    by (rule getv_not_nullish)
  then have "is_legacy_find cmnd = Inr True"
    using assms by (simp add: is_legacy_find_eq)
  then have "extractCommand cmnd = upconvert_legacy_find cmnd"
    using assms(1,2) by (simp add: extractCommand_def)
  then show ?thesis
    using assms by (simp add: upconvert_legacy_find_eq)
qed

lemmas helper_defs =
  getv_def nullish_def legacy_find_fields_spec_def copied_defined_def copied_truthy_def
  query_modifiers_spec_def legacy_options_spec_def boolean_flags_spec_def

section \<open>Properties of the command event factory\<close>

subsection \<open>C1: the Started event of a sensitive command\<close>

text \<open>
  C1 states that for a command whose normalized name is sensitive the Started event
  carries a name-only marker as its command payload, and that the command's content
  appears in no field of the event. The constructor does build the marker
  \<open>{authenticate: true}\<close>, but stores it in the extra property \<open>commandObj\<close>; the
  \<open>command\<close> field is assigned the normalized command itself. Evaluated on an
  \<open>authenticate\<close> command sent to \<open>admin.$cmd\<close>, the event holds the user name and the
  key verbatim in \<open>command\<close>.
\<close>

theorem C1_started_event_keeps_sensitive_command:
  "CommandStartedEvent localhost authenticate_command =
     Inr \<lparr> commandName = JStr ''authenticate'',
           requestId = JNum 7,
           connectionId = ''localhost:27017'',
           commandObj = Some (JObj ObjectClass [(''authenticate'', JBool True)]),
           command = JObj ObjectClass
             [(''authenticate'', JNum 1), (''user'', JStr ''alice''), (''key'', JStr ''s3cret'')],
           databaseName = JStr ''admin'' \<rparr>"
  by (simp add: translator_defs factory_defs example_defs)

subsection \<open>C2: duration\<close>

text \<open>
  C2 states that the duration of every Succeeded and Failed event is non-negative, being
  clamped to zero under clock skew. There is no clamp in \<open>calculateDuration\<close>: with the
  clock at 5 and a start timestamp of 10 both events carry the duration \<open>-5\<close>.
\<close>

theorem C2_negative_duration_counterexample:
  "CommandSucceededEvent localhost ping_command ok_reply 10 5 =
     Inr \<lparr> commandName = JStr ''ping'', requestId = JNum 8, connectionId = ''localhost:27017'',
           duration = - 5, reply = JObj ObjectClass [(''ok'', JNum 1)] \<rparr> \<and>
   CommandFailedEvent localhost ping_command JNull 10 5 =
     Inr \<lparr> commandName = JStr ''ping'', requestId = JNum 8, connectionId = ''localhost:27017'',
           duration = - 5, failure = JNull \<rparr>"
  by (simp add: translator_defs factory_defs example_defs)

text \<open>
  C2, amended: for every Succeeded and Failed event the duration equals the clock value
  at construction minus the start timestamp, with no clamping; it is non-negative exactly
  when the start timestamp is not later than the clock value.
\<close>

theorem C2_duration:
  "(CommandSucceededEvent pool cmnd rply started now = Inr ev \<longrightarrow>
      duration ev = now - started \<and> (0 \<le> duration ev \<longleftrightarrow> started \<le> now)) \<and>
   (CommandFailedEvent pool cmnd err started now = Inr ev' \<longrightarrow>
      duration ev' = now - started \<and> (0 \<le> duration ev' \<longleftrightarrow> started \<le> now))"
  unfolding CommandSucceededEvent_def CommandFailedEvent_def calculateDuration_def
  by (auto simp: bindE_eq_Inr)

text \<open>The amended C2 at a clock value of 10 and a start timestamp of 5.\<close>

theorem C2_duration_witness:
  "CommandSucceededEvent localhost ping_command ok_reply 5 10 =
     Inr \<lparr> commandName = JStr ''ping'', requestId = JNum 8, connectionId = ''localhost:27017'',
           duration = 5, reply = JObj ObjectClass [(''ok'', JNum 1)] \<rparr> \<and>
   CommandFailedEvent localhost ping_command server_error 5 10 =
     Inr \<lparr> commandName = JStr ''ping'', requestId = JNum 8, connectionId = ''localhost:27017'',
           duration = 5, failure = server_error \<rparr> \<and>
   (5::int) = 10 - 5 \<and> (5::int) \<le> 10"
proof -
  have s: "CommandSucceededEvent localhost ping_command ok_reply 5 10 =
     Inr \<lparr> commandName = JStr ''ping'', requestId = JNum 8, connectionId = ''localhost:27017'',
           duration = 5, reply = JObj ObjectClass [(''ok'', JNum 1)] \<rparr>"
    by (simp add: translator_defs factory_defs example_defs)
  have f: "CommandFailedEvent localhost ping_command server_error 5 10 =
     Inr \<lparr> commandName = JStr ''ping'', requestId = JNum 8, connectionId = ''localhost:27017'',
           duration = 5, failure = server_error \<rparr>"
    by (simp add: translator_defs factory_defs example_defs)
  from C2_duration [of localhost ping_command ok_reply 5 10 _ server_error] s f
  show ?thesis by simp
qed

subsection \<open>C3: redaction of replies and failures\<close>



section \<open>Properties of the command translator\<close>

subsection \<open>C4: upconversion of a legacy find\<close>

text \<open>
  C4: a command that is neither a GetMore nor a KillCursor, whose \<open>query\<close> is truthy and
  has a defined \<open>$query\<close>, is upconverted to the fields listed by
  \<open>legacy_find_fields_spec\<close>: \<open>find\<close> first, then the modifiers of the specification's
  table that are present, then the legacy options of its table that are present, then
  the flags of its table that are truthy, then the limit, in that order; the whole is
  wrapped as \<open>{explain: ...}\<close> when the query has a truthy \<open>$explain\<close>. The namespace is a
  string and \<open>options\<close> is a document, as in every legacy find of the data model. In
  particular the input \<open>{query: {$query: {a: 1}, $orderby: {b: 1}}, options:
  {numberToSkip: 5, numberToReturn: 10}, ns: 'db.coll'}\<close> yields exactly
  \<open>{find: 'coll', filter: {a: 1}, sort: {b: 1}, skip: 5, batchSize: 10}\<close>, whose first
  key, the command name, is \<open>find\<close>. And a legacy find that carries every modifier,
  every legacy option, flags that are true, false, \<open>0\<close> and \<open>1\<close>, a pre-3.2 limit and
  fields that no table recognises yields every modifier and option under its canonical
  name, a \<open>false\<close> modifier and a \<open>0\<close> option included, the truthy flags only, and the
  limit last.
\<close>

theorem C4_legacy_find_upconversion:
  "(\<not> instanceof cmnd GetMore \<and> \<not> instanceof cmnd KillCursor \<and>
    truthy (getv cmnd ''query'') \<and> getv (getv cmnd ''query'') ''$query'' \<noteq> JUndefined \<and>
    \<not> nullish (getv cmnd ''options'') \<and> getv cmnd ''ns'' = JStr ns \<longrightarrow>
      extractCommand cmnd =
        Inr (if truthy (getv (getv cmnd ''query'') ''$explain'')
             then JObj ObjectClass [(''explain'', JObj ObjectClass (legacy_find_fields_spec cmnd))]
             else JObj ObjectClass (legacy_find_fields_spec cmnd))) \<and>
   extractCommand legacy_find_example =
     Inr (JObj ObjectClass
            [(''find'', JStr ''coll''),
             (''filter'', JObj ObjectClass [(''a'', JNum 1)]),
             (''sort'', JObj ObjectClass [(''b'', JNum 1)]),
             (''skip'', JNum 5),
             (''batchSize'', JNum 10)]) \<and>
   bindE (extractCommand legacy_find_example) extractCommandName = Inr (JStr ''find'') \<and>
   extractCommand legacy_find_all_fields = Inr legacy_find_all_fields_result \<and>
   bindE (extractCommand legacy_find_all_fields) extractCommandName = Inr (JStr ''find'')"
proof (intro conjI impI)
  show "extractCommand legacy_find_example =
     Inr (JObj ObjectClass
            [(''find'', JStr ''coll''),
             (''filter'', JObj ObjectClass [(''a'', JNum 1)]),
             (''sort'', JObj ObjectClass [(''b'', JNum 1)]),
             (''skip'', JNum 5),
             (''batchSize'', JNum 10)])"
    by (simp add: translator_defs legacy_find_example_def)
  then show "bindE (extractCommand legacy_find_example) extractCommandName = Inr (JStr ''find'')"
    by (simp add: extractCommandName_def)
  show "extractCommand legacy_find_all_fields = Inr legacy_find_all_fields_result"
    by (simp add: translator_defs legacy_find_all_fields_def legacy_find_all_fields_result_def)
  then show "bindE (extractCommand legacy_find_all_fields) extractCommandName = Inr (JStr ''find'')"
    by (simp add: extractCommandName_def legacy_find_all_fields_result_def)
qed (simp add: extractCommand_legacy_find)

text \<open>
  C4 on a legacy find that carries an explain marker, a modifier, the projection option,
  two truthy flags, two falsy ones and a pre-3.2 limit.
\<close>

theorem C4_legacy_find_upconversion_witness:
  "\<not> instanceof legacy_find_explained GetMore \<and>
   \<not> instanceof legacy_find_explained KillCursor \<and>
   truthy (getv legacy_find_explained ''query'') \<and>
   getv (getv legacy_find_explained ''query'') ''$query'' \<noteq> JUndefined \<and>
   \<not> nullish (getv legacy_find_explained ''options'') \<and>
   getv legacy_find_explained ''ns'' = JStr ''db.coll'' \<and>
   truthy (getv (getv legacy_find_explained ''query'') ''$explain'') \<and>
   legacy_find_fields_spec legacy_find_explained =
     [(''find'', JStr ''coll''),
      (''filter'', JObj ObjectClass []),
      (''maxTimeMS'', JNum 20),
      (''projection'', JObj ObjectClass [(''b'', JNum 0)]),
      (''awaitData'', JBool True),
      (''exhaust'', JStr ''yes''),
      (''limit'', JNum 3)] \<and>
   extractCommand legacy_find_explained =
     Inr (JObj ObjectClass
            [(''explain'', JObj ObjectClass
                [(''find'', JStr ''coll''),
                 (''filter'', JObj ObjectClass []),
                 (''maxTimeMS'', JNum 20),
                 (''projection'', JObj ObjectClass [(''b'', JNum 0)]),
                 (''awaitData'', JBool True),
                 (''exhaust'', JStr ''yes''),
                 (''limit'', JNum 3)])])"
proof -
  have h: "\<not> instanceof legacy_find_explained GetMore \<and>
      \<not> instanceof legacy_find_explained KillCursor \<and>
      truthy (getv legacy_find_explained ''query'') \<and>
      getv (getv legacy_find_explained ''query'') ''$query'' \<noteq> JUndefined \<and>
      \<not> nullish (getv legacy_find_explained ''options'') \<and>
      getv legacy_find_explained ''ns'' = JStr ''db.coll''"
    by (simp add: legacy_find_explained_def helper_defs lookup_prop_def)
  have e: "truthy (getv (getv legacy_find_explained ''query'') ''$explain'')"
    by (simp add: legacy_find_explained_def helper_defs lookup_prop_def)
  have f: "legacy_find_fields_spec legacy_find_explained =
     [(''find'', JStr ''coll''),
      (''filter'', JObj ObjectClass []),
      (''maxTimeMS'', JNum 20),
      (''projection'', JObj ObjectClass [(''b'', JNum 0)]),
      (''awaitData'', JBool True),
      (''exhaust'', JStr ''yes''),
      (''limit'', JNum 3)]"
    by (simp add: legacy_find_explained_def helper_defs translator_defs)
  from C4_legacy_find_upconversion [of legacy_find_explained "''db.coll''"] h e f
  show ?thesis by simp
qed

subsection \<open>C5: normalization of replies\<close>

text \<open>
  C5: \<open>extractReply\<close> returns \<open>{ok: 1, cursor: {id, ns, nextBatch}}\<close> for a GetMore,
  \<open>{ok: 1, cursorsUnknown: cursorIds}\<close> for a KillCursor,
  \<open>{ok: 1, cursor: {id, ns, firstBatch}}\<close> for a legacy find, where \<open>id\<close> and the batch
  are the \<open>cursorId\<close> and the \<open>documents\<close> of the reply's message and \<open>ns\<close> is the
  command's namespace; for any other command it returns the \<open>result\<close> of the reply as
  it is.
\<close>

theorem C5_extractReply:
  "(instanceof cmnd GetMore \<and> getProp rply ''message'' = Inr message \<and> \<not> nullish message \<longrightarrow>
      extractReply cmnd rply =
        Inr (JObj ObjectClass
               [(''ok'', JNum 1),
                (''cursor'', JObj ObjectClass
                   [(''id'', getv message ''cursorId''),
                    (''ns'', getv cmnd ''ns''),
                    (''nextBatch'', getv message ''documents'')])])) \<and>
   (instanceof cmnd KillCursor \<longrightarrow>
      extractReply cmnd rply =
        Inr (JObj ObjectClass [(''ok'', JNum 1), (''cursorsUnknown'', getv cmnd ''cursorIds'')])) \<and>
   (\<not> instanceof cmnd GetMore \<and> \<not> instanceof cmnd KillCursor \<and>
    truthy (getv cmnd ''query'') \<and> getv (getv cmnd ''query'') ''$query'' \<noteq> JUndefined \<and>
    getProp rply ''message'' = Inr message \<and> \<not> nullish message \<longrightarrow>
      extractReply cmnd rply =
        Inr (JObj ObjectClass
               [(''ok'', JNum 1),
                (''cursor'', JObj ObjectClass
                   [(''id'', getv message ''cursorId''),
                    (''ns'', getv cmnd ''ns''),
                    (''firstBatch'', getv message ''documents'')])])) \<and>
   (\<not> instanceof cmnd GetMore \<and> \<not> instanceof cmnd KillCursor \<and> \<not> nullish cmnd \<and>
    \<not> (truthy (getv cmnd ''query'') \<and> getv (getv cmnd ''query'') ''$query'' \<noteq> JUndefined) \<longrightarrow>
      extractReply cmnd rply = getProp rply ''result'')"
proof (intro conjI impI)
  assume a: "instanceof cmnd GetMore \<and> getProp rply ''message'' = Inr message \<and> \<not> nullish message"
  then have "\<not> nullish cmnd"
    by (simp add: instanceof_not_nullish [of cmnd GetMore])
  with a show "extractReply cmnd rply =
        Inr (JObj ObjectClass
               [(''ok'', JNum 1),
                (''cursor'', JObj ObjectClass
                   [(''id'', getv message ''cursorId''),
                    (''ns'', getv cmnd ''ns''),
                    (''nextBatch'', getv message ''documents'')])])"
    by (simp add: extractReply_def getProp_getv)
next
  assume a: "instanceof cmnd KillCursor"
  then have "\<not> nullish cmnd"
    by (rule instanceof_not_nullish)
  with a show "extractReply cmnd rply =
        Inr (JObj ObjectClass [(''ok'', JNum 1), (''cursorsUnknown'', getv cmnd ''cursorIds'')])"
    using instanceof_GetMore_not_KillCursor [of cmnd]
    by (auto simp: extractReply_def getProp_getv)
next
  assume a: "\<not> instanceof cmnd GetMore \<and> \<not> instanceof cmnd KillCursor \<and>
    truthy (getv cmnd ''query'') \<and> getv (getv cmnd ''query'') ''$query'' \<noteq> JUndefined \<and>
    getProp rply ''message'' = Inr message \<and> \<not> nullish message"
  then have "getv cmnd ''query'' \<noteq> JUndefined"
    by auto
  then have c: "\<not> nullish cmnd"
    by (rule getv_not_nullish)
  with a show "extractReply cmnd rply =
        Inr (JObj ObjectClass
               [(''ok'', JNum 1),
                (''cursor'', JObj ObjectClass
                   [(''id'', getv message ''cursorId''),
                    (''ns'', getv cmnd ''ns''),
                    (''firstBatch'', getv message ''documents'')])])"
    by (simp add: extractReply_def getProp_getv is_legacy_find_eq)
next
  assume "\<not> instanceof cmnd GetMore \<and> \<not> instanceof cmnd KillCursor \<and> \<not> nullish cmnd \<and>
    \<not> (truthy (getv cmnd ''query'') \<and> getv (getv cmnd ''query'') ''$query'' \<noteq> JUndefined)"
  then show "extractReply cmnd rply = getProp rply ''result''"
    by (auto simp: extractReply_def is_legacy_find_eq)
qed

text \<open>C5 on one command of each of the four kinds.\<close>

theorem C5_extractReply_witness:
  "instanceof getMore_example GetMore \<and>
   getProp cursor_reply ''message'' =
     Inr (JObj ObjectClass
            [(''cursorId'', JNum 99), (''documents'', JArr [JObj ObjectClass [(''a'', JNum 1)]])]) \<and>
   extractReply getMore_example cursor_reply =
     Inr (JObj ObjectClass
            [(''ok'', JNum 1),
             (''cursor'', JObj ObjectClass
                [(''id'', JNum 99),
                 (''ns'', JStr ''db.coll''),
                 (''nextBatch'', JArr [JObj ObjectClass [(''a'', JNum 1)]])])]) \<and>
   instanceof killCursors_example KillCursor \<and>
   extractReply killCursors_example cursor_reply =
     Inr (JObj ObjectClass [(''ok'', JNum 1), (''cursorsUnknown'', JArr [JNum 1, JNum 2])]) \<and>
   truthy (getv legacy_find_example ''query'') \<and>
   getv (getv legacy_find_example ''query'') ''$query'' \<noteq> JUndefined \<and>
   extractReply legacy_find_example cursor_reply =
     Inr (JObj ObjectClass
            [(''ok'', JNum 1),
             (''cursor'', JObj ObjectClass
                [(''id'', JNum 99),
                 (''ns'', JStr ''db.coll''),
                 (''firstBatch'', JArr [JObj ObjectClass [(''a'', JNum 1)]])])]) \<and>
   \<not> nullish ping_command \<and>
   getv (getv ping_command ''query'') ''$query'' = JUndefined \<and>
   extractReply ping_command ok_reply = Inr (JObj ObjectClass [(''ok'', JNum 1)])"
proof -
  let ?message = "JObj ObjectClass
      [(''cursorId'', JNum 99), (''documents'', JArr [JObj ObjectClass [(''a'', JNum 1)]])]"
  have m: "getProp cursor_reply ''message'' = Inr ?message" and nm: "\<not> nullish ?message"
    by (simp_all add: cursor_reply_def lookup_prop_def nullish_def)
  have vm: "getv ?message ''cursorId'' = JNum 99"
    "getv ?message ''documents'' = JArr [JObj ObjectClass [(''a'', JNum 1)]]"
    by (simp_all add: getv_def lookup_prop_def)
  have g: "instanceof getMore_example GetMore" "getv getMore_example ''ns'' = JStr ''db.coll''"
    by (simp_all add: getMore_example_def getv_def lookup_prop_def)
  have k: "instanceof killCursors_example KillCursor"
    "getv killCursors_example ''cursorIds'' = JArr [JNum 1, JNum 2]"
    by (simp_all add: killCursors_example_def getv_def lookup_prop_def)
  have l: "\<not> instanceof legacy_find_example GetMore" "\<not> instanceof legacy_find_example KillCursor"
    "truthy (getv legacy_find_example ''query'')"
    "getv (getv legacy_find_example ''query'') ''$query'' \<noteq> JUndefined"
    "getv legacy_find_example ''ns'' = JStr ''db.coll''"
    by (simp_all add: legacy_find_example_def getv_def lookup_prop_def)
  have p: "\<not> instanceof ping_command GetMore" "\<not> instanceof ping_command KillCursor"
    "\<not> nullish ping_command" "getv (getv ping_command ''query'') ''$query'' = JUndefined"
    "getProp ok_reply ''result'' = Inr (JObj ObjectClass [(''ok'', JNum 1)])"
    by (simp_all add: ping_command_def ok_reply_def getv_def lookup_prop_def nullish_def)
  from C5_extractReply [of getMore_example cursor_reply ?message] m nm vm g
  have 1: "extractReply getMore_example cursor_reply =
     Inr (JObj ObjectClass
            [(''ok'', JNum 1),
             (''cursor'', JObj ObjectClass
                [(''id'', JNum 99),
                 (''ns'', JStr ''db.coll''),
                 (''nextBatch'', JArr [JObj ObjectClass [(''a'', JNum 1)]])])])"
    by simp
  from C5_extractReply [of killCursors_example cursor_reply ?message] k
  have 2: "extractReply killCursors_example cursor_reply =
     Inr (JObj ObjectClass [(''ok'', JNum 1), (''cursorsUnknown'', JArr [JNum 1, JNum 2])])"
    by simp
  from C5_extractReply [of legacy_find_example cursor_reply ?message] m nm vm l
  have 3: "extractReply legacy_find_example cursor_reply =
     Inr (JObj ObjectClass
            [(''ok'', JNum 1),
             (''cursor'', JObj ObjectClass
                [(''id'', JNum 99),
                 (''ns'', JStr ''db.coll''),
                 (''firstBatch'', JArr [JObj ObjectClass [(''a'', JNum 1)]])])])"
    by simp
  from C5_extractReply [of ping_command ok_reply ?message] p
  have 4: "extractReply ping_command ok_reply = Inr (JObj ObjectClass [(''ok'', JNum 1)])"
    by simp
  show ?thesis
    using m g(1) k(1) l(3,4) p(3,4) 1 2 3 4 by simp
qed

subsection \<open>C10: a namespace without a separator\<close>

text \<open>
  C10: when the namespace of a GetMore, a KillCursor or a legacy find is a string without
  \<open>'.'\<close>, \<open>extractCommand\<close> returns a document and does not throw, and the field that
  should name the collection (\<open>collection\<close>, \<open>killCursors\<close>, \<open>find\<close>) holds \<open>undefined\<close>:
  splitting such a namespace gives a single segment, and the collection is read from the
  second. A legacy find has an \<open>options\<close> document, as in the data model; its \<open>find\<close>
  field is the first one of the upconverted command, under the \<open>explain\<close> wrapper when
  there is one.
\<close>

theorem C10_namespace_without_separator:
  assumes "getv cmnd ''ns'' = JStr ns" and "CHR ''.'' \<notin> set ns"
  shows
  "(instanceof cmnd GetMore \<longrightarrow>
      extractCommand cmnd =
        Inr (JObj ObjectClass
               [(''getMore'', getv cmnd ''cursorId''),
                (''collection'', JUndefined),
                (''batchSize'', getv cmnd ''numberToReturn'')])) \<and>
   (instanceof cmnd KillCursor \<longrightarrow>
      extractCommand cmnd =
        Inr (JObj ObjectClass
               [(''killCursors'', JUndefined), (''cursors'', getv cmnd ''cursorIds'')])) \<and>
   (\<not> instanceof cmnd GetMore \<and> \<not> instanceof cmnd KillCursor \<and>
    truthy (getv cmnd ''query'') \<and> getv (getv cmnd ''query'') ''$query'' \<noteq> JUndefined \<and>
    \<not> nullish (getv cmnd ''options'') \<longrightarrow>
      (\<exists>fields.
         legacy_find_fields_spec cmnd = (''find'', JUndefined) # fields \<and>
         extractCommand cmnd =
           Inr (if truthy (getv (getv cmnd ''query'') ''$explain'')
                then JObj ObjectClass
                       [(''explain'', JObj ObjectClass ((''find'', JUndefined) # fields))]
                else JObj ObjectClass ((''find'', JUndefined) # fields))))"
proof (intro conjI impI)
  have sp: "split (JStr ns) CHR ''.'' = Inr [JStr ns]"
    using assms(2) by (simp add: split_str_no_sep)
  {
    assume g: "instanceof cmnd GetMore"
    then have "\<not> nullish cmnd" by (rule instanceof_not_nullish)
    with g show "extractCommand cmnd =
        Inr (JObj ObjectClass
               [(''getMore'', getv cmnd ''cursorId''),
                (''collection'', JUndefined),
                (''batchSize'', getv cmnd ''numberToReturn'')])"
      using assms(1) sp by (simp add: extractCommand_def getProp_getv nth_or_undefined_def)
  }
  {
    assume k: "instanceof cmnd KillCursor"
    then have "\<not> nullish cmnd" by (rule instanceof_not_nullish)
    with k show "extractCommand cmnd =
        Inr (JObj ObjectClass
               [(''killCursors'', JUndefined), (''cursors'', getv cmnd ''cursorIds'')])"
      using assms(1) sp instanceof_GetMore_not_KillCursor [of cmnd]
      by (auto simp: extractCommand_def getProp_getv nth_or_undefined_def)
  }
  {
    assume a: "\<not> instanceof cmnd GetMore \<and> \<not> instanceof cmnd KillCursor \<and>
      truthy (getv cmnd ''query'') \<and> getv (getv cmnd ''query'') ''$query'' \<noteq> JUndefined \<and>
      \<not> nullish (getv cmnd ''options'')"
    have f: "legacy_find_fields_spec cmnd = (''find'', JUndefined) # tl (legacy_find_fields_spec cmnd)"
      using assms(1) sp by (simp add: legacy_find_fields_spec_def nth_or_undefined_def)
    have "extractCommand cmnd =
     Inr (if truthy (getv (getv cmnd ''query'') ''$explain'')
          then JObj ObjectClass [(''explain'', JObj ObjectClass (legacy_find_fields_spec cmnd))]
          else JObj ObjectClass (legacy_find_fields_spec cmnd))"
      using a assms(1) by (intro extractCommand_legacy_find) auto
    with f show "\<exists>fields.
         legacy_find_fields_spec cmnd = (''find'', JUndefined) # fields \<and>
         extractCommand cmnd =
           Inr (if truthy (getv (getv cmnd ''query'') ''$explain'')
                then JObj ObjectClass
                       [(''explain'', JObj ObjectClass ((''find'', JUndefined) # fields))]
                else JObj ObjectClass ((''find'', JUndefined) # fields))"
      by metis
  }
qed

text \<open>C10 on a GetMore, a KillCursor and a legacy find with the namespace \<open>db\<close>.\<close>

theorem C10_namespace_without_separator_witness:
  "getv getMore_no_separator ''ns'' = JStr ''db'' \<and>
   getv killCursors_no_separator ''ns'' = JStr ''db'' \<and>
   getv legacy_find_no_separator ''ns'' = JStr ''db'' \<and>
   CHR ''.'' \<notin> set ''db'' \<and>
   instanceof getMore_no_separator GetMore \<and>
   extractCommand getMore_no_separator =
     Inr (JObj ObjectClass
            [(''getMore'', JNum 123), (''collection'', JUndefined), (''batchSize'', JNum 50)]) \<and>
   instanceof killCursors_no_separator KillCursor \<and>
   extractCommand killCursors_no_separator =
     Inr (JObj ObjectClass
            [(''killCursors'', JUndefined), (''cursors'', JArr [JNum 1, JNum 2])]) \<and>
   truthy (getv legacy_find_no_separator ''query'') \<and>
   getv (getv legacy_find_no_separator ''query'') ''$query'' \<noteq> JUndefined \<and>
   \<not> nullish (getv legacy_find_no_separator ''options'') \<and>
   (\<exists>fields.
      extractCommand legacy_find_no_separator =
        Inr (JObj ObjectClass
               [(''explain'', JObj ObjectClass ((''find'', JUndefined) # fields))]))"
proof -
  have d: "CHR ''.'' \<notin> set ''db''"
    by simp
  have g: "getv getMore_no_separator ''ns'' = JStr ''db''"
    "instanceof getMore_no_separator GetMore"
    "getv getMore_no_separator ''cursorId'' = JNum 123"
    "getv getMore_no_separator ''numberToReturn'' = JNum 50"
    by (simp_all add: getMore_no_separator_def getv_def lookup_prop_def)
  have k: "getv killCursors_no_separator ''ns'' = JStr ''db''"
    "instanceof killCursors_no_separator KillCursor"
    "getv killCursors_no_separator ''cursorIds'' = JArr [JNum 1, JNum 2]"
    by (simp_all add: killCursors_no_separator_def getv_def lookup_prop_def)
  have l: "getv legacy_find_no_separator ''ns'' = JStr ''db''"
    "\<not> instanceof legacy_find_no_separator GetMore"
    "\<not> instanceof legacy_find_no_separator KillCursor"
    "truthy (getv legacy_find_no_separator ''query'')"
    "getv (getv legacy_find_no_separator ''query'') ''$query'' \<noteq> JUndefined"
    "\<not> nullish (getv legacy_find_no_separator ''options'')"
    "truthy (getv (getv legacy_find_no_separator ''query'') ''$explain'')"
    by (simp_all add: legacy_find_no_separator_def getv_def lookup_prop_def nullish_def)
  from C10_namespace_without_separator [OF g(1) d] g
  have 1: "extractCommand getMore_no_separator =
     Inr (JObj ObjectClass
            [(''getMore'', JNum 123), (''collection'', JUndefined), (''batchSize'', JNum 50)])"
    by simp
  from C10_namespace_without_separator [OF k(1) d] k
  have 2: "extractCommand killCursors_no_separator =
     Inr (JObj ObjectClass
            [(''killCursors'', JUndefined), (''cursors'', JArr [JNum 1, JNum 2])])"
    by simp
  from C10_namespace_without_separator [OF l(1) d] l
  have 3: "\<exists>fields.
      extractCommand legacy_find_no_separator =
        Inr (JObj ObjectClass
               [(''explain'', JObj ObjectClass ((''find'', JUndefined) # fields))])"
    by auto
  show ?thesis
    using d g(1,2) k(1,2) l(1,4,5,6) 1 2 3 by simp
qed

section \<open>Properties of the command translator on the store\<close>

lemma frames_returnH: "frames n (returnH x)"
  by (simp add: frames_def returnH_def)

lemma frames_readH: "frames n (readH g)"
  by (simp add: frames_def readH_def)

lemma frames_allocH: "frames n (allocH ob)"
  by (simp add: frames_def allocH_def)

lemma frames_setPropH: "n \<le> a \<Longrightarrow> frames n (setPropH (HRef a) k v)"
  by (simp add: frames_def)

lemma frames_bindH:
  assumes "frames n m" and "\<And>x. frames n (f x)"
  shows "frames n (bindH m f)"
  unfolding frames_def
proof (intro allI impI)
  fix h :: heap
  assume n: "n \<le> length h"
  obtain r h' where m: "m h = (r, h')"
    by (cases "m h")
  from assms(1) n m have h': "n \<le> length h'" "take n h' = take n h"
    by (auto simp: frames_def)
  show "n \<le> length (snd (bindH m f h)) \<and> take n (snd (bindH m f h)) = take n h"
  proof (cases r)
    case (Inl e)
    with m h' show ?thesis by (simp add: bindH_def)
  next
    case (Inr x)
    from assms(2) [of x] h' have "n \<le> length (snd (f x h')) \<and> take n (snd (f x h')) = take n h'"
      by (simp add: frames_def)
    with Inr m h' show ?thesis by (simp add: bindH_def)
  qed
qed

lemma frames_forEachH: "(\<And>k. frames n (f k)) \<Longrightarrow> frames n (forEachH f ks)"
  by (induction ks) (simp_all add: frames_returnH frames_bindH)

lemma frames_copy_definedH: "n \<le> a \<Longrightarrow> frames n (copy_definedH cmnd field (HRef a) entry)"
  unfolding copy_definedH_def
  by (intro frames_bindH frames_readH) (simp add: frames_returnH frames_setPropH del: setPropH.simps)

lemma frames_copy_truthyH: "n \<le> a \<Longrightarrow> frames n (copy_truthyH cmnd (HRef a) key)"
  unfolding copy_truthyH_def
  by (intro frames_bindH frames_readH) (simp add: frames_returnH frames_setPropH del: setPropH.simps)

lemma extends_at_returnH: "extends_at h (returnH x)"
  by (simp add: extends_at_def returnH_def)

lemma extends_at_allocH: "extends_at h (allocH ob)"
  by (simp add: extends_at_def allocH_def)

lemma extends_at_readH_bindH: "(\<And>x. extends_at h (f x)) \<Longrightarrow> extends_at h (bindH (readH g) f)"
  by (cases "g h") (simp_all add: extends_at_def bindH_def readH_def)

lemma extends_at_allocH_bindH:
  assumes "frames (length h) (f (HRef (length h)))"
  shows "extends_at h (bindH (allocH ob) f)"
proof -
  let ?h' = "snd (f (HRef (length h)) (h @ [ob]))"
  from assms have "length h \<le> length ?h' \<and> take (length h) ?h' = take (length h) (h @ [ob])"
    by (simp add: frames_def)
  then have "take (length h) ?h' = h"
    by simp
  then have "?h' = h @ drop (length h) ?h'"
    by (metis append_take_drop_id)
  moreover have "snd (bindH (allocH ob) f h) = ?h'"
    by (simp add: bindH_def allocH_def)
  ultimately show ?thesis
    unfolding extends_at_def by metis
qed

lemma extends_at_is_legacy_findH_bindH:
  "(\<And>x. extends_at h (f x)) \<Longrightarrow> extends_at h (bindH (is_legacy_findH cmnd) f)"
  unfolding is_legacy_findH_def extends_at_def bindH_def readH_def returnH_def
  by (auto split: sum.splits prod.splits if_splits)

lemma extends_at_upconvert: "extends_at h (upconvert_legacy_findH cmnd)"
  unfolding upconvert_legacy_findH_def
  apply (intro extends_at_readH_bindH extends_at_allocH_bindH)
  apply (intro frames_bindH frames_forEachH frames_copy_definedH frames_copy_truthyH frames_readH
      order_refl)
   apply (simp_all add: frames_returnH frames_allocH frames_setPropH del: setPropH.simps)
  done

lemma extractCommandH_extends: "\<exists>new. snd (extractCommandH cmnd h) = h @ new"
proof -
  have "extends_at h (extractCommandH cmnd)"
    unfolding extractCommandH_def
    by (intro extends_at_readH_bindH extends_at_is_legacy_findH_bindH)
       (simp add: extends_at_readH_bindH extends_at_is_legacy_findH_bindH extends_at_allocH
          extends_at_returnH extends_at_upconvert)
  then show ?thesis
    by (simp add: extends_at_def)
qed

lemma getPropH_append: "valid_val h v \<Longrightarrow> getPropH (h @ ext) v k = getPropH h v k"
  by (cases v) (simp_all add: nth_append)

lemma instanceofH_append: "valid_val h v \<Longrightarrow> instanceofH (h @ ext) v c = instanceofH h v c"
  by (cases v) (simp_all add: nth_append)

lemma lookup_propH_valid:
  "list_all (\<lambda>kv. valid_val h (snd kv)) kvs \<Longrightarrow> valid_val h (lookup_propH kvs k)"
  unfolding lookup_propH_def
  by (induction kvs) (auto split: option.splits)

lemma str_propH_valid: "valid_val h (str_propH s k)"
  by (simp add: str_propH_def split: option.splits)

lemma getPropH_valid:
  assumes "closed_heap h" and "valid_val h v" and "getPropH h v k = Inr x"
  shows "valid_val h x"
proof (cases v)
  case (HRef a)
  with assms(2) have a: "a < length h" by simp
  with assms(1) have "list_all (\<lambda>kv. valid_val h (snd kv)) (hprops (h ! a))"
    by (simp add: closed_heap_def list_all_length)
  then have "valid_val h (lookup_propH (hprops (h ! a)) k)"
    by (rule lookup_propH_valid)
  with HRef a assms(3) show ?thesis by auto
next
  case (HStr s)
  with assms(3) show ?thesis by (auto simp: str_propH_valid)
qed (use assms(3) in auto)

lemma setProp_valid:
  "list_all (\<lambda>kv. valid_val h (snd kv)) ps \<Longrightarrow> valid_val h v \<Longrightarrow>
   list_all (\<lambda>kv. valid_val h (snd kv)) (setProp ps k v)"
  by (induction ps) auto

lemma setPropH_last:
  "setPropH (HRef (length h + length ext)) k v (h @ ext @ [ob]) =
     (Inr (), h @ ext @ [ob\<lparr>hprops := setProp (hprops ob) k v\<rparr>])"
  by (simp add: nth_append list_update_append)

text \<open>One iteration of a copying loop does the same to the result object whatever lies
  between the base store and that object.\<close>

lemma copy_definedH_indep:
  assumes "closed_heap h" and "valid_val h cmnd" and "valid_obj h ob"
  shows "\<exists>r ob'. valid_obj h ob' \<and> (\<forall>ext.
     copy_definedH cmnd field (HRef (length (h @ ext))) entry ((h @ ext) @ [ob]) =
       (r, (h @ ext) @ [ob']))"
proof (cases "getPropH h cmnd field")
  case (Inl e)
  then have "\<forall>ext. copy_definedH cmnd field (HRef (length (h @ ext))) entry ((h @ ext) @ [ob]) =
       (Inl e, (h @ ext) @ [ob])"
    using assms(2) by (simp add: copy_definedH_def bindH_def readH_def getPropH_append)
  with assms(3) show ?thesis by blast
next
  case src: (Inr src)
  then have vs: "valid_val h src"
    using assms(1,2) getPropH_valid by blast
  show ?thesis
  proof (cases "getPropH h src (fst entry)")
    case (Inl e)
    then have "\<forall>ext. copy_definedH cmnd field (HRef (length (h @ ext))) entry ((h @ ext) @ [ob]) =
       (Inl e, (h @ ext) @ [ob])"
      using assms(2) src vs by (simp add: copy_definedH_def bindH_def readH_def getPropH_append)
    with assms(3) show ?thesis by blast
  next
    case v: (Inr v)
    then have vv: "valid_val h v"
      using assms(1) vs getPropH_valid by blast
    show ?thesis
    proof (cases "v = HUndefined")
      case True
      then have "\<forall>ext. copy_definedH cmnd field (HRef (length (h @ ext))) entry ((h @ ext) @ [ob]) =
         (Inr (), (h @ ext) @ [ob])"
        using assms(2) src vs v
        by (simp add: copy_definedH_def bindH_def readH_def returnH_def getPropH_append)
      with assms(3) show ?thesis by blast
    next
      case False
      let ?ob' = "ob\<lparr>hprops := setProp (hprops ob) (snd entry) v\<rparr>"
      have "\<forall>ext. copy_definedH cmnd field (HRef (length (h @ ext))) entry ((h @ ext) @ [ob]) =
         (Inr (), (h @ ext) @ [?ob'])"
        using assms(2) src vs v False
        by (simp add: copy_definedH_def bindH_def readH_def getPropH_append setPropH_last
            del: setPropH.simps)
      moreover have "valid_obj h ?ob'"
        using assms(3) vv by (simp add: valid_obj_def setProp_valid)
      ultimately show ?thesis by blast
    qed
  qed
qed

lemma copy_truthyH_indep:
  assumes "closed_heap h" and "valid_val h cmnd" and "valid_obj h ob"
  shows "\<exists>r ob'. valid_obj h ob' \<and> (\<forall>ext.
     copy_truthyH cmnd (HRef (length (h @ ext))) key ((h @ ext) @ [ob]) =
       (r, (h @ ext) @ [ob']))"
proof (cases "getPropH h cmnd key")
  case (Inl e)
  then have "\<forall>ext. copy_truthyH cmnd (HRef (length (h @ ext))) key ((h @ ext) @ [ob]) =
       (Inl e, (h @ ext) @ [ob])"
    using assms(2) by (simp add: copy_truthyH_def bindH_def readH_def getPropH_append)
  with assms(3) show ?thesis by blast
next
  case v: (Inr v)
  then have vv: "valid_val h v"
    using assms(1,2) getPropH_valid by blast
  show ?thesis
  proof (cases "truthyH v")
    case False
    then have "\<forall>ext. copy_truthyH cmnd (HRef (length (h @ ext))) key ((h @ ext) @ [ob]) =
       (Inr (), (h @ ext) @ [ob])"
      using assms(2) v
      by (simp add: copy_truthyH_def bindH_def readH_def returnH_def getPropH_append)
    with assms(3) show ?thesis by blast
  next
    case True
    let ?ob' = "ob\<lparr>hprops := setProp (hprops ob) key v\<rparr>"
    have "\<forall>ext. copy_truthyH cmnd (HRef (length (h @ ext))) key ((h @ ext) @ [ob]) =
       (Inr (), (h @ ext) @ [?ob'])"
      using assms(2) v True
      by (simp add: copy_truthyH_def bindH_def readH_def getPropH_append setPropH_last
          del: setPropH.simps)
    moreover have "valid_obj h ?ob'"
      using assms(3) vv by (simp add: valid_obj_def setProp_valid)
    ultimately show ?thesis by blast
  qed
qed

text \<open>A loop whose every iteration has that property has it as a whole.\<close>

lemma forEachH_indep:
  assumes step: "\<And>k ob. valid_obj h ob \<Longrightarrow> \<exists>r ob'. valid_obj h ob' \<and> (\<forall>ext.
     f (HRef (length (h @ ext))) k ((h @ ext) @ [ob]) = (r, (h @ ext) @ [ob']))"
  shows "valid_obj h ob \<Longrightarrow> \<exists>r ob'. valid_obj h ob' \<and> (\<forall>ext.
     forEachH (f (HRef (length (h @ ext)))) ks ((h @ ext) @ [ob]) = (r, (h @ ext) @ [ob']))"
proof (induction ks arbitrary: ob)
  case Nil
  then show ?case by (auto simp: returnH_def)
next
  case (Cons k ks)
  from step [OF Cons.prems, of k] obtain r ob1 where ob1: "valid_obj h ob1"
    and s: "\<And>ext. f (HRef (length (h @ ext))) k ((h @ ext) @ [ob]) = (r, (h @ ext) @ [ob1])"
    by blast
  show ?case
  proof (cases r)
    case (Inl e)
    with s have "\<forall>ext. forEachH (f (HRef (length (h @ ext)))) (k # ks) ((h @ ext) @ [ob]) =
        (Inl e, (h @ ext) @ [ob1])"
      by (simp add: bindH_def)
    with ob1 show ?thesis by blast
  next
    case (Inr u)
    from Cons.IH [OF ob1] obtain r' ob' where ob': "valid_obj h ob'"
      and t: "\<And>ext. forEachH (f (HRef (length (h @ ext)))) ks ((h @ ext) @ [ob1]) =
          (r', (h @ ext) @ [ob'])"
      by blast
    from Inr s t have "\<forall>ext. forEachH (f (HRef (length (h @ ext)))) (k # ks) ((h @ ext) @ [ob]) =
        (r', (h @ ext) @ [ob'])"
      by (simp add: bindH_def)
    with ob' show ?thesis by blast
  qed
qed

lemma splitH_valid: "splitH v c = Inr segs \<Longrightarrow> valid_val h (nth_or_undefinedH segs i)"
  by (cases v) (auto simp: nth_or_undefinedH_def)

lemma bindH_readH:
  "bindH (readH g) f H = (case g H of Inl e \<Rightarrow> (Inl e, H) | Inr x \<Rightarrow> f x H)"
  by (simp add: bindH_def readH_def split: sum.splits)

lemma bindH_allocH: "bindH (allocH ob) f H = f (HRef (length H)) (H @ [ob])"
  by (simp add: bindH_def allocH_def)

lemma bindH_returnH: "bindH (returnH x) f H = f x H"
  by (simp add: bindH_def returnH_def)

lemma bindH_setPropH_last:
  "bindH (setPropH (HRef (length h + length ext)) k v) f (h @ ext @ [ob]) =
     f () (h @ ext @ [ob\<lparr>hprops := setProp (hprops ob) k v\<rparr>])"
  by (simp add: bindH_def setPropH_last del: setPropH.simps)

lemma returnH_apply: "returnH x H = (Inr x, H)"
  by (simp add: returnH_def)

lemma allocH_apply: "allocH ob H = (Inr (HRef (length H)), H @ [ob])"
  by (simp add: allocH_def)

lemmas heap_run = bindH_readH bindH_allocH bindH_returnH bindH_setPropH_last getPropH_append
  returnH_apply allocH_apply

lemma upconvert_tail:
  assumes h: "closed_heap h" and c: "valid_val h cmnd" and ob: "valid_obj h ob"
  shows "\<exists>out. valid_outcome h out \<and> (\<forall>ext.
     bindH (readH (\<lambda>h. getPropH h cmnd ''pre32Limit'')) (\<lambda>pre32Limit.
     bindH (if pre32Limit \<noteq> HUndefined
            then setPropH (HRef (length (h @ ext))) ''limit'' pre32Limit
            else returnH ()) (\<lambda>u.
     bindH (readH (\<lambda>h. getPropH h cmnd ''query'')) (\<lambda>query.
     bindH (readH (\<lambda>h. getPropH h query ''$explain'')) (\<lambda>explain.
       if truthyH explain
       then allocH \<lparr>hclass = ObjectClass, hprops = [(''explain'', HRef (length (h @ ext)))]\<rparr>
       else returnH (HRef (length (h @ ext))))))) ((h @ ext) @ [ob]) =
     (case out of Thrown e g \<Rightarrow> (Inl e, (h @ ext) @ g) | _ \<Rightarrow> realize out (h @ ext)))"
    (is "\<exists>out. _ \<and> (\<forall>ext. ?run ext = ?res out ext)")
proof (cases "getPropH h cmnd ''pre32Limit''")
  case (Inl e)
  then have "\<forall>ext. ?run ext = ?res (Thrown e [ob]) ext"
    using c by (simp add: bindH_readH getPropH_append)
  then show ?thesis
    by (intro exI [of _ "Thrown e [ob]"]) simp
next
  case lim: (Inr lim)
  then have vl: "valid_val h lim"
    using h c getPropH_valid by blast
  define ob' where "ob' = (if lim \<noteq> HUndefined
      then ob\<lparr>hprops := setProp (hprops ob) ''limit'' lim\<rparr> else ob)"
  have vob': "valid_obj h ob'"
    using ob vl by (simp add: ob'_def valid_obj_def setProp_valid)
  show ?thesis
  proof (cases "getPropH h cmnd ''query''")
    case (Inl e)
    then have "\<forall>ext. ?run ext = ?res (Thrown e [ob']) ext"
      using c lim by (simp add: heap_run ob'_def del: setPropH.simps)
    then show ?thesis
      by (intro exI [of _ "Thrown e [ob']"]) simp
  next
    case q: (Inr query)
    then have vq: "valid_val h query"
      using h c getPropH_valid by blast
    show ?thesis
    proof (cases "getPropH h query ''$explain''")
      case (Inl e)
      then have "\<forall>ext. ?run ext = ?res (Thrown e [ob']) ext"
        using c lim q vq by (simp add: heap_run ob'_def del: setPropH.simps)
      then show ?thesis
        by (intro exI [of _ "Thrown e [ob']"]) simp
    next
      case ex: (Inr explain)
      show ?thesis
      proof (cases "truthyH explain")
        case True
        then have "\<forall>ext. ?run ext = ?res (FreshExplain ob') ext"
          using c lim q vq ex
          by (simp add: heap_run ob'_def del: setPropH.simps)
        then show ?thesis
          using vob' by (intro exI [of _ "FreshExplain ob'"]) simp
      next
        case False
        then have "\<forall>ext. ?run ext = ?res (Fresh ob') ext"
          using c lim q vq ex
          by (simp add: heap_run ob'_def del: setPropH.simps)
        then show ?thesis
          using vob' by (intro exI [of _ "Fresh ob'"]) simp
      qed
    qed
  qed
qed

lemma bindH_Inr: "m H = (Inr x, H') \<Longrightarrow> bindH m f H = f x H'"
  by (simp add: bindH_def)

lemma bindH_Inl: "m H = (Inl e, H') \<Longrightarrow> bindH m f H = (Inl e, H')"
  by (simp add: bindH_def)

lemma realize_Thrown_case:
  "(case out of Thrown e g \<Rightarrow> (Inl e, B @ g) | _ \<Rightarrow> realize out B) = realize out B"
  by (cases out) simp_all

lemma upconvert_outcome:
  assumes h: "closed_heap h" and c: "valid_val h cmnd"
  shows "\<exists>out. valid_outcome h out \<and>
     (\<forall>ext. upconvert_legacy_findH cmnd (h @ ext) = realize out (h @ ext))"
proof (cases "getPropH h cmnd ''ns''")
  case (Inl e)
  then have "\<forall>ext. upconvert_legacy_findH cmnd (h @ ext) = realize (Thrown e []) (h @ ext)"
    using c by (simp add: upconvert_legacy_findH_def heap_run)
  then show ?thesis
    by (intro exI [of _ "Thrown e []"]) simp
next
  case ns: (Inr ns)
  show ?thesis
  proof (cases "splitH ns CHR ''.''")
    case (Inl e)
    then have "\<forall>ext. upconvert_legacy_findH cmnd (h @ ext) = realize (Thrown e []) (h @ ext)"
      using c ns by (simp add: upconvert_legacy_findH_def heap_run)
    then show ?thesis
      by (intro exI [of _ "Thrown e []"]) simp
  next
    case segs: (Inr segs)
    define ob0 where "ob0 = \<lparr>hclass = ObjectClass, hprops = [(''find'', nth_or_undefinedH segs 1)]\<rparr>"
    define L1 where "L1 res = forEachH (copy_definedH cmnd ''query'' res) LEGACY_FIND_QUERY_MAP" for res
    define L2 where "L2 res = forEachH (copy_definedH cmnd ''options'' res) LEGACY_FIND_OPTIONS_MAP" for res
    define L3 where "L3 res = forEachH (copy_truthyH cmnd res) OP_QUERY_KEYS" for res
    define T where "T res =
       bindH (readH (\<lambda>h. getPropH h cmnd ''pre32Limit'')) (\<lambda>pre32Limit.
       bindH (if pre32Limit \<noteq> HUndefined then setPropH res ''limit'' pre32Limit
              else returnH ()) (\<lambda>u.
       bindH (readH (\<lambda>h. getPropH h cmnd ''query'')) (\<lambda>query.
       bindH (readH (\<lambda>h. getPropH h query ''$explain'')) (\<lambda>explain.
         if truthyH explain
         then allocH \<lparr>hclass = ObjectClass, hprops = [(''explain'', res)]\<rparr>
         else returnH res))))" for res
    have v0: "valid_obj h ob0"
      using segs by (simp add: ob0_def valid_obj_def splitH_valid)
    have start: "upconvert_legacy_findH cmnd (h @ ext) =
        bindH (L1 (HRef (length (h @ ext)))) (\<lambda>u.
        bindH (L2 (HRef (length (h @ ext)))) (\<lambda>u.
        bindH (L3 (HRef (length (h @ ext)))) (\<lambda>u. T (HRef (length (h @ ext))))))
          ((h @ ext) @ [ob0])" for ext
      by (simp only: upconvert_legacy_findH_def bindH_readH bindH_allocH getPropH_append [OF c]
          ns segs sum.case L1_def L2_def L3_def T_def ob0_def)
    from forEachH_indep [of h "\<lambda>res. copy_definedH cmnd ''query'' res", OF copy_definedH_indep [OF h c] v0]
    obtain r1 ob1 where v1: "valid_obj h ob1"
      and l1: "\<And>ext. L1 (HRef (length (h @ ext))) ((h @ ext) @ [ob0]) = (r1, (h @ ext) @ [ob1])"
      unfolding L1_def by blast
    show ?thesis
    proof (cases r1)
      case (Inl e)
      have e1: "bindH (L1 (HRef (length (h @ ext)))) f ((h @ ext) @ [ob0]) = (Inl e, (h @ ext) @ [ob1])"
        for ext and f :: "unit \<Rightarrow> hval hm"
        by (rule bindH_Inl) (simp only: l1 Inl)
      have "\<forall>ext. upconvert_legacy_findH cmnd (h @ ext) = realize (Thrown e [ob1]) (h @ ext)"
        by (simp only: start e1 realize.simps simp_thms)
      then show ?thesis
        by (intro exI [of _ "Thrown e [ob1]"]) simp
    next
      case r1: (Inr u1)
      have b1: "bindH (L1 (HRef (length (h @ ext)))) f ((h @ ext) @ [ob0]) = f u1 ((h @ ext) @ [ob1])"
        for ext and f :: "unit \<Rightarrow> hval hm"
        by (rule bindH_Inr) (simp only: l1 r1)
      from forEachH_indep [of h "\<lambda>res. copy_definedH cmnd ''options'' res",
          OF copy_definedH_indep [OF h c] v1]
      obtain r2 ob2 where v2: "valid_obj h ob2"
        and l2: "\<And>ext. L2 (HRef (length (h @ ext))) ((h @ ext) @ [ob1]) = (r2, (h @ ext) @ [ob2])"
        unfolding L2_def by blast
      show ?thesis
      proof (cases r2)
        case (Inl e)
        have e2: "bindH (L2 (HRef (length (h @ ext)))) f ((h @ ext) @ [ob1]) = (Inl e, (h @ ext) @ [ob2])"
          for ext and f :: "unit \<Rightarrow> hval hm"
          by (rule bindH_Inl) (simp only: l2 Inl)
        have "\<forall>ext. upconvert_legacy_findH cmnd (h @ ext) = realize (Thrown e [ob2]) (h @ ext)"
          by (simp only: start b1 e2 realize.simps simp_thms)
        then show ?thesis
          by (intro exI [of _ "Thrown e [ob2]"]) simp
      next
        case r2: (Inr u2)
        have b2: "bindH (L2 (HRef (length (h @ ext)))) f ((h @ ext) @ [ob1]) = f u2 ((h @ ext) @ [ob2])"
          for ext and f :: "unit \<Rightarrow> hval hm"
          by (rule bindH_Inr) (simp only: l2 r2)
        from forEachH_indep [of h "\<lambda>res. copy_truthyH cmnd res", OF copy_truthyH_indep [OF h c] v2]
        obtain r3 ob3 where v3: "valid_obj h ob3"
          and l3: "\<And>ext. L3 (HRef (length (h @ ext))) ((h @ ext) @ [ob2]) = (r3, (h @ ext) @ [ob3])"
          unfolding L3_def by blast
        show ?thesis
        proof (cases r3)
          case (Inl e)
          have e3: "bindH (L3 (HRef (length (h @ ext)))) f ((h @ ext) @ [ob2]) = (Inl e, (h @ ext) @ [ob3])"
            for ext and f :: "unit \<Rightarrow> hval hm"
            by (rule bindH_Inl) (simp only: l3 Inl)
          have "\<forall>ext. upconvert_legacy_findH cmnd (h @ ext) = realize (Thrown e [ob3]) (h @ ext)"
            by (simp only: start b1 b2 e3 realize.simps simp_thms)
          then show ?thesis
            by (intro exI [of _ "Thrown e [ob3]"]) simp
        next
          case r3: (Inr u3)
          have b3: "bindH (L3 (HRef (length (h @ ext)))) f ((h @ ext) @ [ob2]) = f u3 ((h @ ext) @ [ob3])"
            for ext and f :: "unit \<Rightarrow> hval hm"
            by (rule bindH_Inr) (simp only: l3 r3)
          from upconvert_tail [OF h c v3, of] obtain out where vo: "valid_outcome h out"
            and t: "\<And>ext. T (HRef (length (h @ ext))) ((h @ ext) @ [ob3]) = realize out (h @ ext)"
            unfolding T_def realize_Thrown_case by blast
          have "\<forall>ext. upconvert_legacy_findH cmnd (h @ ext) = realize out (h @ ext)"
            by (simp only: start b1 b2
                b3 t simp_thms)
          with vo show ?thesis
            by blast
        qed
      qed
    qed
  qed
qed

lemma instanceofH_ref: "instanceofH h v c \<Longrightarrow> \<exists>a. v = HRef a \<and> a < length h"
  by (cases v) simp_all

lemma lookup_nth_valid:
  "closed_heap h \<Longrightarrow> a < length h \<Longrightarrow> valid_val h (lookup_propH (hprops (h ! a)) k)"
  by (rule lookup_propH_valid) (simp add: closed_heap_def list_all_length)

lemma extractCommandH_outcome:
  assumes h: "closed_heap h" and c: "valid_val h cmnd"
  shows "\<exists>out. valid_outcome h out \<and>
     (\<forall>ext. extractCommandH cmnd (h @ ext) = realize out (h @ ext))"
proof -
  consider (getMore) "instanceofH h cmnd GetMore"
    | (killCursor) "\<not> instanceofH h cmnd GetMore" "instanceofH h cmnd KillCursor"
    | (other) "\<not> instanceofH h cmnd GetMore" "\<not> instanceofH h cmnd KillCursor"
    by blast
  then show ?thesis
  proof cases
    case getMore
    then obtain a where a: "cmnd = HRef a" "a < length h"
      using instanceofH_ref by blast
    have gp: "getPropH h cmnd k = Inr (lookup_propH (hprops (h ! a)) k)" for k
      using a by simp
    let ?ns = "lookup_propH (hprops (h ! a)) ''ns''"
    show ?thesis
    proof (cases "splitH ?ns CHR ''.''")
      case (Inl e)
      then have "\<forall>ext. extractCommandH cmnd (h @ ext) = realize (Thrown e []) (h @ ext)"
        using getMore c
        by (simp add: extractCommandH_def bindH_readH instanceofH_append getPropH_append gp)
      then show ?thesis
        by (intro exI [of _ "Thrown e []"]) simp
    next
      case (Inr segs)
      let ?ob = "\<lparr>hclass = ObjectClass,
                 hprops = [(''getMore'', lookup_propH (hprops (h ! a)) ''cursorId''),
                           (''collection'', nth_or_undefinedH segs 1),
                           (''batchSize'', lookup_propH (hprops (h ! a)) ''numberToReturn'')]\<rparr>"
      have "\<forall>ext. extractCommandH cmnd (h @ ext) = realize (Fresh ?ob) (h @ ext)"
        using getMore c Inr
        by (simp add: extractCommandH_def bindH_readH instanceofH_append getPropH_append gp
            allocH_apply)
      moreover have "valid_obj h ?ob"
        using h a Inr by (simp add: valid_obj_def lookup_nth_valid splitH_valid)
      ultimately show ?thesis
        by (intro exI [of _ "Fresh ?ob"]) simp
    qed
  next
    case killCursor
    then obtain a where a: "cmnd = HRef a" "a < length h"
      using instanceofH_ref by blast
    have gp: "getPropH h cmnd k = Inr (lookup_propH (hprops (h ! a)) k)" for k
      using a by simp
    let ?ns = "lookup_propH (hprops (h ! a)) ''ns''"
    show ?thesis
    proof (cases "splitH ?ns CHR ''.''")
      case (Inl e)
      then have "\<forall>ext. extractCommandH cmnd (h @ ext) = realize (Thrown e []) (h @ ext)"
        using killCursor c
        by (simp add: extractCommandH_def bindH_readH instanceofH_append getPropH_append gp)
      then show ?thesis
        by (intro exI [of _ "Thrown e []"]) simp
    next
      case (Inr segs)
      let ?ob = "\<lparr>hclass = ObjectClass,
                 hprops = [(''killCursors'', nth_or_undefinedH segs 1),
                           (''cursors'', lookup_propH (hprops (h ! a)) ''cursorIds'')]\<rparr>"
      have "\<forall>ext. extractCommandH cmnd (h @ ext) = realize (Fresh ?ob) (h @ ext)"
        using killCursor c Inr
        by (simp add: extractCommandH_def bindH_readH instanceofH_append getPropH_append gp
            allocH_apply)
      moreover have "valid_obj h ?ob"
        using h a Inr by (simp add: valid_obj_def lookup_nth_valid splitH_valid)
      ultimately show ?thesis
        by (intro exI [of _ "Fresh ?ob"]) simp
    qed
  next
    case other
    have start: "extractCommandH cmnd (h @ ext) =
        bindH (is_legacy_findH cmnd) (\<lambda>legacy.
         if legacy then upconvert_legacy_findH cmnd
         else bindH (readH (\<lambda>h. getPropH h cmnd ''query'')) (\<lambda>query.
                returnH (if truthyH query then query else cmnd))) (h @ ext)" for ext
      using other c by (simp add: extractCommandH_def bindH_readH instanceofH_append)
    show ?thesis
    proof (cases "getPropH h cmnd ''query''")
      case (Inl e)
      then have "\<forall>ext. extractCommandH cmnd (h @ ext) = realize (Thrown e []) (h @ ext)"
        using c by (simp add: start is_legacy_findH_def bindH_def readH_def returnH_def getPropH_append)
      then show ?thesis
        by (intro exI [of _ "Thrown e []"]) simp
    next
      case q: (Inr query)
      then have vq: "valid_val h query"
        using h c getPropH_valid by blast
      show ?thesis
      proof (cases "truthyH query")
        case False
        then have "\<forall>ext. extractCommandH cmnd (h @ ext) = realize (Existing cmnd) (h @ ext)"
          using c q
          by (simp add: start is_legacy_findH_def bindH_def readH_def returnH_def getPropH_append)
        then show ?thesis
          using c by (intro exI [of _ "Existing cmnd"]) simp
      next
        case True
        show ?thesis
        proof (cases "getPropH h query ''$query''")
          case (Inl e)
          then have "\<forall>ext. extractCommandH cmnd (h @ ext) = realize (Thrown e []) (h @ ext)"
            using c q vq True
            by (simp add: start is_legacy_findH_def bindH_def readH_def returnH_def getPropH_append)
          then show ?thesis
            by (intro exI [of _ "Thrown e []"]) simp
        next
          case x: (Inr x)
          show ?thesis
          proof (cases "x = HUndefined")
            case True
            then have "\<forall>ext. extractCommandH cmnd (h @ ext) = realize (Existing query) (h @ ext)"
              using c q vq x \<open>truthyH query\<close>
              by (simp add: start is_legacy_findH_def bindH_def readH_def returnH_def
                  getPropH_append)
            then show ?thesis
              using vq by (intro exI [of _ "Existing query"]) simp
          next
            case False
            then have "extractCommandH cmnd (h @ ext) = upconvert_legacy_findH cmnd (h @ ext)" for ext
              using c q vq x \<open>truthyH query\<close>
              by (simp add: start is_legacy_findH_def bindH_def readH_def returnH_def
                  getPropH_append)
            with upconvert_outcome [OF h c] show ?thesis
              by simp
          qed
        qed
      qed
    qed
  qed
qed

lemma same_output_refl: "closed_heap H \<Longrightarrow> valid_val H v \<Longrightarrow> same_output n H v v"
proof (induction n arbitrary: v)
  case 0
  then show ?case by simp
next
  case (Suc n)
  show ?case
  proof (cases v)
    case (HRef a)
    with Suc.prems have a: "a < length H" by simp
    with Suc.prems(1) have "list_all (\<lambda>kv. valid_val H (snd kv)) (hprops (H ! a))"
      by (simp add: closed_heap_def list_all_length)
    then have "\<forall>w \<in> set (map snd (hprops (H ! a))). same_output n H w w"
      using Suc.IH [OF Suc.prems(1)] by (auto simp: list_all_iff)
    then have "list_all2 (same_output n H) (map snd (hprops (H ! a))) (map snd (hprops (H ! a)))"
      by (simp add: list_all2_same)
    with HRef a show ?thesis by simp
  qed simp_all
qed

lemma valid_val_append: "valid_val h v \<Longrightarrow> valid_val (h @ ext) v"
  by (cases v) simp_all

lemma closed_heap_append:
  assumes "closed_heap h" and "list_all (\<lambda>ob. list_all (\<lambda>kv. valid_val (h @ ext) (snd kv)) (hprops ob)) ext"
  shows "closed_heap (h @ ext)"
proof -
  have "list_all (\<lambda>ob. list_all (\<lambda>kv. valid_val (h @ ext) (snd kv)) (hprops ob)) h"
    using assms(1) unfolding closed_heap_def list_all_iff
    by (auto intro: valid_val_append)
  with assms(2) show ?thesis
    by (simp add: closed_heap_def)
qed

lemma valid_obj_append:
  "valid_obj h ob \<Longrightarrow> list_all (\<lambda>kv. valid_val (h @ ext) (snd kv)) (hprops ob)"
  unfolding valid_obj_def list_all_iff by (auto intro: valid_val_append)

lemma same_output_values:
  assumes "closed_heap H" and "list_all (\<lambda>kv. valid_val H (snd kv)) ps"
  shows "list_all2 (same_output n H) (map snd ps) (map snd ps)"
proof -
  have "\<forall>w \<in> set (map snd ps). same_output n H w w"
    using assms same_output_refl by (auto simp: list_all_iff)
  then show ?thesis
    by (simp add: list_all2_same)
qed

lemma same_output_fresh:
  assumes h: "closed_heap h" and ob: "valid_obj h ob"
  shows "same_output n ((h @ [ob]) @ [ob]) (HRef (length h)) (HRef (length (h @ [ob])))"
proof (cases n)
  case 0
  then show ?thesis by simp
next
  case (Suc m)
  let ?H = "h @ [ob, ob]"
  have "list_all (\<lambda>ob'. list_all (\<lambda>kv. valid_val ?H (snd kv)) (hprops ob')) [ob, ob]"
    using valid_obj_append [OF ob, of "[ob, ob]"] by simp
  with h have cl: "closed_heap ?H"
    by (rule closed_heap_append)
  have "list_all2 (same_output m ?H) (map snd (hprops ob)) (map snd (hprops ob))"
    using cl valid_obj_append [OF ob, of "[ob, ob]"] by (rule same_output_values)
  then show ?thesis
    using Suc by (simp add: nth_append)
qed

lemma same_output_fresh_explain:
  assumes h: "closed_heap h" and ob: "valid_obj h ob"
  shows "same_output n
     ((h @ [ob, \<lparr>hclass = ObjectClass, hprops = [(''explain'', HRef (length h))]\<rparr>]) @
      [ob, \<lparr>hclass = ObjectClass,
            hprops = [(''explain'', HRef (length (h @ [ob,
               \<lparr>hclass = ObjectClass, hprops = [(''explain'', HRef (length h))]\<rparr>])))]\<rparr>])
     (HRef (Suc (length h)))
     (HRef (Suc (length (h @ [ob,
               \<lparr>hclass = ObjectClass, hprops = [(''explain'', HRef (length h))]\<rparr>]))))"
proof -
  let ?W0 = "\<lparr>hclass = ObjectClass, hprops = [(''explain'', HRef (length h))]\<rparr>"
  let ?W1 = "\<lparr>hclass = ObjectClass, hprops = [(''explain'', HRef (Suc (Suc (length h))))]\<rparr>"
  let ?ext = "[ob, ?W0, ob, ?W1]"
  let ?H = "h @ ?ext"
  have "list_all (\<lambda>ob'. list_all (\<lambda>kv. valid_val ?H (snd kv)) (hprops ob')) ?ext"
    using valid_obj_append [OF ob, of ?ext] by simp
  with h have cl: "closed_heap ?H"
    by (rule closed_heap_append)
  have vals: "list_all2 (same_output k ?H) (map snd (hprops ob)) (map snd (hprops ob))" for k
    using cl valid_obj_append [OF ob, of ?ext] by (rule same_output_values)
  have inner: "same_output m ?H (HRef (length h)) (HRef (Suc (Suc (length h))))" for m
  proof (cases m)
    case 0
    then show ?thesis by simp
  next
    case (Suc k)
    then show ?thesis
      using vals [of k] by (simp add: nth_append)
  qed
  have "same_output n ?H (HRef (Suc (length h))) (HRef (Suc (Suc (Suc (length h)))))"
  proof (cases n)
    case 0
    then show ?thesis by simp
  next
    case (Suc m)
    then show ?thesis
      using inner [of m] by (simp add: nth_append)
  qed
  then show ?thesis
    by simp
qed

lemmas heap_defs =
  extractCommandH_def is_legacy_findH_def upconvert_legacy_findH_def copy_definedH_def
  copy_truthyH_def bindH_def readH_def returnH_def allocH_def lookup_propH_def
  nth_or_undefinedH_def LEGACY_FIND_QUERY_MAP_def LEGACY_FIND_OPTIONS_MAP_def OP_QUERY_KEYS_def

subsection \<open>C6: the translator is pure\<close>

text \<open>
  C6: \<open>extractCommand\<close> never mutates its input and gives the same output when invoked
  twice on the same input. On the store: whatever the command and the store, the store
  after the call is the store before it followed by new objects, so no object that
  existed before the call has changed, even when the call throws. And when the call is
  repeated on the same command in the store that the first call left (a closed store,
  and a command that points into it), the objects that existed before the first call
  are still unchanged, and the two calls either both throw the same exception or return
  values that are the same output to every depth: equal primitives or references to
  objects of the same class with the same keys in the same order and the same values.
\<close>

theorem C6_extractCommand_pure:
  "(\<exists>new. snd (extractCommandH cmnd h) = h @ new) \<and>
   (closed_heap h \<and> valid_val h cmnd \<and>
    extractCommandH cmnd h = (r1, h1) \<and> extractCommandH cmnd h1 = (r2, h2) \<longrightarrow>
      take (length h) h2 = h \<and>
      ((\<exists>e. r1 = Inl e \<and> r2 = Inl e) \<or>
       (\<exists>v1 v2. r1 = Inr v1 \<and> r2 = Inr v2 \<and> (\<forall>n. same_output n h2 v1 v2))))"
proof (rule conjI)
  show "\<exists>new. snd (extractCommandH cmnd h) = h @ new"
    by (rule extractCommandH_extends)
next
  show "closed_heap h \<and> valid_val h cmnd \<and>
    extractCommandH cmnd h = (r1, h1) \<and> extractCommandH cmnd h1 = (r2, h2) \<longrightarrow>
      take (length h) h2 = h \<and>
      ((\<exists>e. r1 = Inl e \<and> r2 = Inl e) \<or>
       (\<exists>v1 v2. r1 = Inr v1 \<and> r2 = Inr v2 \<and> (\<forall>n. same_output n h2 v1 v2)))"
  proof (rule impI)
  assume a: "closed_heap h \<and> valid_val h cmnd \<and>
    extractCommandH cmnd h = (r1, h1) \<and> extractCommandH cmnd h1 = (r2, h2)"
  then have h: "closed_heap h" and c: "valid_val h cmnd"
    by simp_all
  from extractCommandH_outcome [OF h c] obtain out where vo: "valid_outcome h out"
    and run: "\<And>ext. extractCommandH cmnd (h @ ext) = realize out (h @ ext)"
    by blast
  from run [of "[]"] a have first: "realize out h = (r1, h1)"
    by simp
  show "take (length h) h2 = h \<and>
      ((\<exists>e. r1 = Inl e \<and> r2 = Inl e) \<or>
       (\<exists>v1 v2. r1 = Inr v1 \<and> r2 = Inr v2 \<and> (\<forall>n. same_output n h2 v1 v2)))"
  proof (cases out)
    case (Thrown e g)
    with first have 1: "r1 = Inl e" "h1 = h @ g"
      by auto
    with run [of g] a Thrown have "r2 = Inl e" "h2 = (h @ g) @ g"
      by auto
    with 1 show ?thesis by simp
  next
    case (Existing v)
    with first have 1: "r1 = Inr v" "h1 = h"
      by auto
    with a have 2: "r2 = Inr v" "h2 = h"
      by auto
    have "same_output n h v v" for n
      using h vo Existing by (simp add: same_output_refl)
    with 1 2 show ?thesis by simp
  next
    case (Fresh ob)
    with first have 1: "r1 = Inr (HRef (length h))" "h1 = h @ [ob]"
      by auto
    with run [of "[ob]"] a Fresh
    have 2: "r2 = Inr (HRef (length (h @ [ob])))" "h2 = (h @ [ob]) @ [ob]"
      by auto
    have "same_output n h2 (HRef (length h)) (HRef (length (h @ [ob])))" for n
      unfolding 2 using h vo Fresh by (simp only: same_output_fresh valid_outcome.simps)
    with 1 2 show ?thesis by simp
  next
    case (FreshExplain ob)
    let ?W0 = "\<lparr>hclass = ObjectClass, hprops = [(''explain'', HRef (length h))]\<rparr>"
    from FreshExplain first have 1: "r1 = Inr (HRef (Suc (length h)))" "h1 = h @ [ob, ?W0]"
      by auto
    with run [of "[ob, ?W0]"] a FreshExplain
    have 2: "r2 = Inr (HRef (Suc (length (h @ [ob, ?W0]))))"
      "h2 = (h @ [ob, ?W0]) @
        [ob, \<lparr>hclass = ObjectClass, hprops = [(''explain'', HRef (length (h @ [ob, ?W0])))]\<rparr>]"
      by auto
    have "same_output n h2 (HRef (Suc (length h))) (HRef (Suc (length (h @ [ob, ?W0]))))" for n
      unfolding 2 using h vo FreshExplain
      by (simp only: same_output_fresh_explain valid_outcome.simps)
    with 1 2 show ?thesis by simp
  qed
  qed
qed

text \<open>C6 on the legacy find of the specification, invoked twice.\<close>

theorem C6_extractCommand_pure_witness:
  "closed_heap legacy_find_heap \<and> valid_val legacy_find_heap (HRef 0) \<and>
   extractCommandH (HRef 0) legacy_find_heap =
     (Inr (HRef 5), legacy_find_heap @ [legacy_find_result]) \<and>
   extractCommandH (HRef 0) (legacy_find_heap @ [legacy_find_result]) =
     (Inr (HRef 6), legacy_find_heap @ [legacy_find_result, legacy_find_result]) \<and>
   take (length legacy_find_heap) (legacy_find_heap @ [legacy_find_result, legacy_find_result]) =
     legacy_find_heap \<and>
   (\<forall>n. same_output n (legacy_find_heap @ [legacy_find_result, legacy_find_result])
          (HRef 5) (HRef 6))"
proof -
  have cl: "closed_heap legacy_find_heap \<and> valid_val legacy_find_heap (HRef 0)"
    by (simp add: closed_heap_def legacy_find_heap_def)
  have run1: "extractCommandH (HRef 0) legacy_find_heap =
     (Inr (HRef 5), legacy_find_heap @ [legacy_find_result])"
    by (simp add: heap_defs legacy_find_heap_def legacy_find_result_def)
  have run2: "extractCommandH (HRef 0) (legacy_find_heap @ [legacy_find_result]) =
     (Inr (HRef 6), legacy_find_heap @ [legacy_find_result, legacy_find_result])"
    by (simp add: heap_defs legacy_find_heap_def legacy_find_result_def)
  from C6_extractCommand_pure [of "HRef 0" legacy_find_heap "Inr (HRef 5)"
      "legacy_find_heap @ [legacy_find_result]" "Inr (HRef 6)"
      "legacy_find_heap @ [legacy_find_result, legacy_find_result]"] cl run1 run2
  show ?thesis
    by simp
qed

section \<open>Properties of the connection\<close>

lemma getProp_getv_eq: "getProp v k = Inr x \<Longrightarrow> getv v k = x"
  by (simp add: getv_def)

lemma CommandStartedEvent_fields:
  assumes "CommandStartedEvent p cmnd = Inr ev"
  shows "requestId ev = getv cmnd ''requestId''"
    and "connectionId ev = generateConnectionId p"
    and "\<exists>cmd. extractCommand cmnd = Inr cmd"
  using assms unfolding CommandStartedEvent_def
  by (auto simp: bindE_eq_Inr getProp_getv_eq)

lemma CommandSucceededEvent_fields:
  assumes "CommandSucceededEvent p cmnd rply st now = Inr ev"
  shows "requestId ev = getv cmnd ''requestId''"
    and "connectionId ev = generateConnectionId p"
  using assms unfolding CommandSucceededEvent_def
  by (auto simp: bindE_eq_Inr getProp_getv_eq)

lemma CommandFailedEvent_fields:
  assumes "CommandFailedEvent p cmnd err st now = Inr ev"
  shows "requestId ev = getv cmnd ''requestId''"
    and "connectionId ev = generateConnectionId p"
  using assms unfolding CommandFailedEvent_def
  by (auto simp: bindE_eq_Inr getProp_getv_eq)

lemma CommandFailedEvent_total:
  assumes "extractCommand cmnd = Inr cmd"
  shows "\<exists>ev. CommandFailedEvent p cmnd err st now = Inr ev"
proof -
  from assms have "\<not> nullish cmnd" and "\<not> nullish cmd"
    by (rule extractCommand_not_nullish)+
  then obtain name where "extractCommandName cmd = Inr name"
    and "getProp cmnd ''requestId'' = Inr (getv cmnd ''requestId'')"
    using extractCommandName_total getProp_getv by blast
  with assms show ?thesis
    by (simp add: CommandFailedEvent_def)
qed

lemma lookup_prop_setProp: "lookup_prop (setProp kvs k v) k = v"
  by (induction kvs) (auto simp: lookup_prop_def)

lemma assignRequestId_requestId:
  "assignRequestId cmnd r = Inr cmnd' \<Longrightarrow> getv cmnd' ''requestId'' = JNum (int r)"
  by (cases cmnd) (auto simp: getv_def lookup_prop_setProp)

lemma fail_waiter_effect:
  assumes "fail_waiter now err rw conn = Inr conn'"
  shows "\<exists>evs. failed_events_for conn evs [rw] \<and>
     conn' = conn\<lparr>emittedEvents := emittedEvents conn @ map Failed evs,
                  callerResolutions := callerResolutions conn @ [(fst rw, Rejected err)]\<rparr>"
proof (cases "monitorCommands conn")
  case True
  with assms obtain ev where ev: "CommandFailedEvent (hostAddress conn) (w_command (snd rw)) err
      (w_started (snd rw)) now = Inr ev"
    and c': "conn' = resolve (fst rw) (Rejected err) (emit (Failed ev) conn)"
    by (auto simp: fail_waiter_def bindE_eq_Inr)
  have "failed_events_for conn [ev] [rw]"
    using True CommandFailedEvent_fields [OF ev] by (simp add: failed_events_for_def)
  moreover have "conn' = conn\<lparr>emittedEvents := emittedEvents conn @ map Failed [ev],
                  callerResolutions := callerResolutions conn @ [(fst rw, Rejected err)]\<rparr>"
    using c' by (simp add: resolve_def emit_def)
  ultimately show ?thesis by blast
next
  case False
  with assms have "conn' = resolve (fst rw) (Rejected err) conn"
    by (auto simp: fail_waiter_def)
  then have "conn' = conn\<lparr>emittedEvents := emittedEvents conn @ map Failed [],
                  callerResolutions := callerResolutions conn @ [(fst rw, Rejected err)]\<rparr>"
    by (simp add: resolve_def)
  moreover have "failed_events_for conn [] [rw]"
    using False by (simp add: failed_events_for_def)
  ultimately show ?thesis by blast
qed

lemma failed_events_for_Cons:
  assumes "failed_events_for conn evs1 [rw]" and "failed_events_for conn1 evs2 ws"
    and "monitorCommands conn1 = monitorCommands conn" and "hostAddress conn1 = hostAddress conn"
  shows "failed_events_for conn (evs1 @ evs2) (rw # ws)"
  using assms by (auto simp: failed_events_for_def list_all2_Cons2)

lemma forEachE_fail_waiter_effect:
  "forEachE (fail_waiter now err) ws conn = Inr conn' \<Longrightarrow>
   \<exists>evs. failed_events_for conn evs ws \<and>
     conn' = conn\<lparr>emittedEvents := emittedEvents conn @ map Failed evs,
                  callerResolutions :=
                    callerResolutions conn @ map (\<lambda>rw. (fst rw, Rejected err)) ws\<rparr>"
proof (induction ws arbitrary: conn)
  case Nil
  then have "conn' = conn" by simp
  then have "failed_events_for conn [] [] \<and>
     conn' = conn\<lparr>emittedEvents := emittedEvents conn @ map Failed [],
                  callerResolutions :=
                    callerResolutions conn @ map (\<lambda>rw. (fst rw, Rejected err)) []\<rparr>"
    by (simp add: failed_events_for_def)
  then show ?case by blast
next
  case (Cons rw ws)
  then obtain conn1 where 1: "fail_waiter now err rw conn = Inr conn1"
    and 2: "forEachE (fail_waiter now err) ws conn1 = Inr conn'"
    by (auto simp: bindE_eq_Inr)
  from fail_waiter_effect [OF 1] obtain evs1 where e1: "failed_events_for conn evs1 [rw]"
    and c1: "conn1 = conn\<lparr>emittedEvents := emittedEvents conn @ map Failed evs1,
                  callerResolutions := callerResolutions conn @ [(fst rw, Rejected err)]\<rparr>"
    by blast
  from Cons.IH [OF 2] obtain evs2 where e2: "failed_events_for conn1 evs2 ws"
    and c2: "conn' = conn1\<lparr>emittedEvents := emittedEvents conn1 @ map Failed evs2,
                  callerResolutions :=
                    callerResolutions conn1 @ map (\<lambda>rw. (fst rw, Rejected err)) ws\<rparr>"
    by blast
  have "failed_events_for conn (evs1 @ evs2) (rw # ws)"
    by (rule failed_events_for_Cons [OF e1 e2]) (simp_all add: c1)
  moreover have "conn' = conn\<lparr>emittedEvents := emittedEvents conn @ map Failed (evs1 @ evs2),
                  callerResolutions :=
                    callerResolutions conn @ map (\<lambda>rw. (fst rw, Rejected err)) (rw # ws)\<rparr>"
    using c1 c2 by simp
  ultimately show ?case by blast
qed

lemma teardown_effect:
  assumes "teardown now err conn = Inr conn'"
  shows "\<exists>evs. failed_events_for conn evs (pendingWaiters conn) \<and>
     conn' = conn\<lparr>emittedEvents := emittedEvents conn @ map Failed evs,
                  callerResolutions :=
                    callerResolutions conn @
                    map (\<lambda>rw. (fst rw, Rejected err)) (pendingWaiters conn),
                  pendingWaiters := [], lifecycle_state := CLOSED, transportDestroyed := True\<rparr>"
proof -
  from assms obtain conn1 where 1: "forEachE (fail_waiter now err) (pendingWaiters conn) conn = Inr conn1"
    and 2: "conn' = conn1\<lparr>pendingWaiters := [], lifecycle_state := CLOSED, transportDestroyed := True\<rparr>"
    by (auto simp: teardown_def bindE_eq_Inr)
  from forEachE_fail_waiter_effect [OF 1] 2 show ?thesis
    by auto
qed

lemma fail_waiter_total:
  assumes "monitorCommands conn \<longrightarrow> (\<exists>cmd. extractCommand (w_command (snd rw)) = Inr cmd)"
  shows "\<exists>conn'. fail_waiter now err rw conn = Inr conn'"
proof (cases "monitorCommands conn")
  case True
  with assms obtain cmd where "extractCommand (w_command (snd rw)) = Inr cmd"
    by blast
  from CommandFailedEvent_total [OF this] obtain ev where
    "CommandFailedEvent (hostAddress conn) (w_command (snd rw)) err (w_started (snd rw)) now = Inr ev"
    by blast
  with True show ?thesis by (simp add: fail_waiter_def)
next
  case False
  then show ?thesis by (simp add: fail_waiter_def)
qed

lemma forEachE_fail_waiter_total:
  "(monitorCommands conn \<longrightarrow>
      (\<forall>rw \<in> set ws. \<exists>cmd. extractCommand (w_command (snd rw)) = Inr cmd)) \<Longrightarrow>
   \<exists>conn'. forEachE (fail_waiter now err) ws conn = Inr conn'"
proof (induction ws arbitrary: conn)
  case Nil
  then show ?case by simp
next
  case (Cons rw ws)
  then obtain conn1 where 1: "fail_waiter now err rw conn = Inr conn1"
    using fail_waiter_total [of conn rw now err] by auto
  from fail_waiter_effect [OF 1] have "monitorCommands conn1 = monitorCommands conn"
    by auto
  with Cons.prems have "monitorCommands conn1 \<longrightarrow>
      (\<forall>rw \<in> set ws. \<exists>cmd. extractCommand (w_command (snd rw)) = Inr cmd)"
    by simp
  from Cons.IH [OF this] 1 show ?case
    by simp
qed

lemma teardown_total:
  "(monitorCommands conn \<longrightarrow>
      (\<forall>rw \<in> set (pendingWaiters conn). \<exists>cmd. extractCommand (w_command (snd rw)) = Inr cmd)) \<Longrightarrow>
   \<exists>conn'. teardown now err conn = Inr conn'"
  using forEachE_fail_waiter_total [of conn "pendingWaiters conn" now err]
  by (auto simp: teardown_def)

lemma count_started_Failed: "filter (started_for r) (map Failed evs) = []"
  by (induction evs) simp_all

lemma count_succeeded_Failed: "filter (succeeded_for r) (map Failed evs) = []"
  by (induction evs) simp_all

lemma count_failed_Failed:
  "list_all2 (\<lambda>ev rw. requestId ev = JNum (int (fst rw)) \<and> P ev rw) evs ws \<Longrightarrow>
   length (filter (failed_for r) (map Failed evs)) = length (filter (\<lambda>rw. fst rw = r) ws)"
  by (induction evs ws rule: list_all2_induct) auto

lemma count_key_distinct:
  "distinct (map fst ws) \<Longrightarrow>
   length (filter (\<lambda>rw. fst rw = r) ws) = (if r \<in> fst ` set ws then 1 else 0)"
  by (induction ws) (auto simp: image_iff)

lemma failed_events_for_requestIds:
  assumes "failed_events_for conn evs ws" and "monitorCommands conn"
    and "\<forall>rw \<in> set ws. getv (w_command (snd rw)) ''requestId'' = JNum (int (fst rw))"
  shows "list_all2 (\<lambda>ev rw. requestId ev = JNum (int (fst rw)) \<and>
            connectionId ev = generateConnectionId (hostAddress conn)) evs ws"
proof -
  from assms(1,2) have "list_all2 (\<lambda>ev rw. requestId ev = getv (w_command (snd rw)) ''requestId'' \<and>
                               connectionId ev = generateConnectionId (hostAddress conn)) evs ws"
    by (simp add: failed_events_for_def)
  then show ?thesis
    using assms(3)
  proof (induction evs ws rule: list_all2_induct)
    case Nil
    then show ?case by simp
  next
    case (Cons ev evs rw ws)
    then show ?case by simp
  qed
qed

lemma list_all2_connectionIds:
  "list_all2 (\<lambda>ev rw. Q ev rw \<and> connectionId ev = s) evs ws \<Longrightarrow>
   \<forall>e \<in> set (map Failed evs). event_connectionId e = s"
  by (induction evs ws rule: list_all2_induct) auto

lemma teardown_wait_inv:
  assumes "wait_inv conn" and "teardown now err conn = Inr conn'"
  shows "wait_inv conn'"
proof -
  from teardown_effect [OF assms(2)] obtain evs where
    "conn' = conn\<lparr>emittedEvents := emittedEvents conn @ map Failed evs,
                  callerResolutions :=
                    callerResolutions conn @
                    map (\<lambda>rw. (fst rw, Rejected err)) (pendingWaiters conn),
                  pendingWaiters := [], lifecycle_state := CLOSED, transportDestroyed := True\<rparr>"
    by blast
  with assms(1) show ?thesis
    by (simp add: wait_inv_def)
qed

lemma teardown_ev_inv:
  assumes w: "wait_inv conn" and e: "ev_inv addr conn" and t: "teardown now err conn = Inr conn'"
  shows "ev_inv addr conn'"
proof -
  from teardown_effect [OF t] obtain evs where f: "failed_events_for conn evs (pendingWaiters conn)"
    and c': "conn' = conn\<lparr>emittedEvents := emittedEvents conn @ map Failed evs,
                  callerResolutions :=
                    callerResolutions conn @
                    map (\<lambda>rw. (fst rw, Rejected err)) (pendingWaiters conn),
                  pendingWaiters := [], lifecycle_state := CLOSED, transportDestroyed := True\<rparr>"
    by blast
  from e have mon: "monitorCommands conn" and addr: "hostAddress conn = addr"
    by (simp_all add: ev_inv_def)
  from w have ids: "\<forall>rw \<in> set (pendingWaiters conn).
      getv (w_command (snd rw)) ''requestId'' = JNum (int (fst rw))"
    and hist: "\<forall>rw \<in> set (pendingWaiters conn). (fst rw, False) \<in> set (dispatchHistory conn)"
    and dist: "distinct (map fst (pendingWaiters conn))"
    by (simp_all add: wait_inv_def)
  note rel = failed_events_for_requestIds [OF f mon ids]
  have nf: "length (filter (failed_for r) (map Failed evs)) = (if is_pending r conn then 1 else 0)" for r
    using count_failed_Failed [OF rel, of r] count_key_distinct [OF dist, of r]
    by (simp add: is_pending_def)
  have started: "count_events (started_for r) conn' = count_events (started_for r) conn" for r
    by (simp add: c' count_events_def count_started_Failed)
  have succeeded: "count_events (succeeded_for r) conn' = count_events (succeeded_for r) conn" for r
    by (simp add: c' count_events_def count_succeeded_Failed)
  have failed: "count_events (failed_for r) conn' =
      count_events (failed_for r) conn + (if is_pending r conn then 1 else 0)" for r
    using nf [of r] by (simp add: c' count_events_def)
  have pend: "is_pending r conn \<Longrightarrow> (r, False) \<in> set (dispatchHistory conn)" for r
    using hist by (auto simp: is_pending_def)
  have terminal: "count_events (succeeded_for r) conn' + count_events (failed_for r) conn' =
      (if (r, False) \<in> set (dispatchHistory conn') \<and> \<not> is_pending r conn' then 1 else 0)" for r
  proof -
    have old: "count_events (succeeded_for r) conn + count_events (failed_for r) conn =
        (if (r, False) \<in> set (dispatchHistory conn) \<and> \<not> is_pending r conn then 1 else 0)"
      using e by (simp add: ev_inv_def)
    have new: "dispatchHistory conn' = dispatchHistory conn" "\<not> is_pending r conn'"
      by (simp_all add: c' is_pending_def)
    show ?thesis
      using old pend [of r] by (auto simp: succeeded failed new split: if_splits)
  qed
  have ids': "\<forall>e \<in> set (emittedEvents conn'). event_connectionId e = generateConnectionId addr"
    using e list_all2_connectionIds [OF rel] addr by (auto simp: c' ev_inv_def)
  have "requestIdCounter conn' = requestIdCounter conn" "hostAddress conn' = addr"
    "monitorCommands conn'"
    using mon addr by (simp_all add: c')
  with e started terminal ids' show ?thesis
    by (simp add: ev_inv_def)
qed

lemma emit_started_effect:
  assumes "emit_started cmnd' conn = Inr conn1"
  shows "\<exists>evs. (if monitorCommands conn
      then \<exists>ev. evs = [ev] \<and> CommandStartedEvent (hostAddress conn) cmnd' = Inr ev
      else evs = []) \<and>
     conn1 = conn\<lparr>emittedEvents := emittedEvents conn @ map Started evs\<rparr>"
proof (cases "monitorCommands conn")
  case True
  with assms obtain ev where "CommandStartedEvent (hostAddress conn) cmnd' = Inr ev"
    "conn1 = emit (Started ev) conn"
    by (auto simp: emit_started_def bindE_eq_Inr)
  with True show ?thesis
    by (intro exI [of _ "[ev]"]) (simp add: emit_def)
next
  case False
  with assms show ?thesis
    by (intro exI [of _ "[]"]) (simp add: emit_started_def)
qed

lemma write_command_effect:
  assumes "write_command now cmnd' opts write_error rid
      (conn\<lparr>emittedEvents := emittedEvents conn @ map Started evs,
            requestIdCounter := Suc rid,
            dispatchHistory := dispatchHistory conn @ [(rid, noResponse opts)]\<rparr>) = Inr conn'"
    and "rid = requestIdCounter conn"
  shows "case write_error of
        None \<Rightarrow> conn' = dispatched_state now cmnd' opts write_error evs conn
      | Some e \<Rightarrow>
          teardown now e (dispatched_state now cmnd' opts write_error evs conn) = Inr conn'"
proof (cases "noResponse opts")
  case True
  with assms show ?thesis
    by (cases write_error) (auto simp: write_command_def dispatched_state_def resolve_def)
next
  case False
  with assms show ?thesis
    by (cases write_error) (auto simp: write_command_def dispatched_state_def Let_def)
qed

lemma dispatch_effect:
  assumes d: "dispatch now cmnd opts write_error conn = Inr conn'"
    and o: "lifecycle_state conn = OPEN"
  shows "\<exists>cmnd' evs.
     assignRequestId cmnd (requestIdCounter conn) = Inr cmnd' \<and>
     (if monitorCommands conn
      then \<exists>ev. evs = [ev] \<and> CommandStartedEvent (hostAddress conn) cmnd' = Inr ev
      else evs = []) \<and>
     (case write_error of
        None \<Rightarrow> conn' = dispatched_state now cmnd' opts write_error evs conn
      | Some e \<Rightarrow>
          teardown now e (dispatched_state now cmnd' opts write_error evs conn) = Inr conn')"
proof -
  from d o have "bindE (assignRequestId cmnd (requestIdCounter conn)) (\<lambda>cmnd'.
        bindE (emit_started cmnd' conn) (\<lambda>conn1.
          write_command now cmnd' opts write_error (requestIdCounter conn)
            (conn1\<lparr>requestIdCounter := Suc (requestIdCounter conn),
                   dispatchHistory :=
                     dispatchHistory conn1 @ [(requestIdCounter conn, noResponse opts)]\<rparr>))) = Inr conn'"
    by (simp add: dispatch_def)
  then obtain cmnd' conn1 where a: "assignRequestId cmnd (requestIdCounter conn) = Inr cmnd'"
    and m: "emit_started cmnd' conn = Inr conn1"
    and r: "write_command now cmnd' opts write_error (requestIdCounter conn)
            (conn1\<lparr>requestIdCounter := Suc (requestIdCounter conn),
                   dispatchHistory :=
                     dispatchHistory conn1 @ [(requestIdCounter conn, noResponse opts)]\<rparr>) = Inr conn'"
    unfolding bindE_eq_Inr by blast
  from emit_started_effect [OF m] obtain evs where evs: "if monitorCommands conn
      then \<exists>ev. evs = [ev] \<and> CommandStartedEvent (hostAddress conn) cmnd' = Inr ev
      else evs = []"
    and c1: "conn1 = conn\<lparr>emittedEvents := emittedEvents conn @ map Started evs\<rparr>"
    by blast
  from r have "write_command now cmnd' opts write_error (requestIdCounter conn)
      (conn\<lparr>emittedEvents := emittedEvents conn @ map Started evs,
            requestIdCounter := Suc (requestIdCounter conn),
            dispatchHistory := dispatchHistory conn @ [(requestIdCounter conn, noResponse opts)]\<rparr>) = Inr conn'"
    by (simp add: c1)
  from write_command_effect [OF this refl] a evs show ?thesis
    by blast
qed

lemma wait_inv_key_lt:
  assumes "wait_inv conn" and "rw \<in> set (pendingWaiters conn)"
  shows "fst rw < requestIdCounter conn"
proof -
  from assms have "(fst rw, False) \<in> set (dispatchHistory conn)"
    by (simp add: wait_inv_def)
  then have "fst rw \<in> set (map fst (dispatchHistory conn))"
    by force
  with assms(1) show ?thesis
    by (simp add: wait_inv_def)
qed

lemma wait_inv_counter_fresh:
  assumes "wait_inv conn"
  shows "\<not> is_pending (requestIdCounter conn) conn"
    and "(requestIdCounter conn, b) \<notin> set (dispatchHistory conn)"
proof -
  show "\<not> is_pending (requestIdCounter conn) conn"
  proof
    assume "is_pending (requestIdCounter conn) conn"
    then obtain rw where "rw \<in> set (pendingWaiters conn)" "fst rw = requestIdCounter conn"
      by (auto simp: is_pending_def)
    with wait_inv_key_lt [OF assms, of rw] show False
      by simp
  qed
  have "requestIdCounter conn \<notin> set (map fst (dispatchHistory conn))"
    using assms by (simp add: wait_inv_def)
  then show "(requestIdCounter conn, b) \<notin> set (dispatchHistory conn)"
    by force
qed

lemma dispatched_wait_inv:
  assumes w: "wait_inv conn" and o: "lifecycle_state conn = OPEN"
    and a: "assignRequestId cmnd (requestIdCounter conn) = Inr cmnd'"
    and evs: "if monitorCommands conn
      then \<exists>ev. evs = [ev] \<and> CommandStartedEvent (hostAddress conn) cmnd' = Inr ev
      else evs = []"
  shows "wait_inv (dispatched_state now cmnd' opts write_error evs conn)"
proof -
  let ?rid = "requestIdCounter conn"
  have fresh: "?rid \<notin> fst ` set (pendingWaiters conn)"
    using wait_inv_counter_fresh(1) [OF w] by (simp add: is_pending_def)
  have rid: "getv cmnd' ''requestId'' = JNum (int ?rid)"
    using a by (rule assignRequestId_requestId)
  have ext: "monitorCommands conn \<longrightarrow> (\<exists>cmd. extractCommand cmnd' = Inr cmd)"
    using evs CommandStartedEvent_fields(3) by auto
  have hist: "map fst (dispatchHistory conn) = [0..<?rid]"
    using w by (simp add: wait_inv_def)
  have old: "\<forall>rw \<in> set (pendingWaiters conn).
        (fst rw, False) \<in> set (dispatchHistory conn) \<and>
        getv (w_command (snd rw)) ''requestId'' = JNum (int (fst rw)) \<and>
        (monitorCommands conn \<longrightarrow> (\<exists>cmd. extractCommand (w_command (snd rw)) = Inr cmd))"
    and dist: "distinct (map fst (pendingWaiters conn))"
    using w by (simp_all add: wait_inv_def)
  show ?thesis
    unfolding wait_inv_def dispatched_state_def
    using fresh rid ext hist old dist o by auto
qed

lemma dispatched_ev_inv:
  assumes w: "wait_inv conn" and e: "ev_inv addr conn"
    and a: "assignRequestId cmnd (requestIdCounter conn) = Inr cmnd'"
    and evs: "if monitorCommands conn
      then \<exists>ev. evs = [ev] \<and> CommandStartedEvent (hostAddress conn) cmnd' = Inr ev
      else evs = []"
  shows "ev_inv addr (dispatched_state now cmnd' opts write_error evs conn)"
proof -
  let ?rid = "requestIdCounter conn"
  let ?c' = "dispatched_state now cmnd' opts write_error evs conn"
  from e have mon: "monitorCommands conn" and addr: "hostAddress conn = addr"
    by (simp_all add: ev_inv_def)
  with evs obtain ev where ev: "evs = [ev]" "CommandStartedEvent addr cmnd' = Inr ev"
    by auto
  have rid: "requestId ev = JNum (int ?rid)"
    using CommandStartedEvent_fields(1) [OF ev(2)] assignRequestId_requestId [OF a] by simp
  have cid: "connectionId ev = generateConnectionId addr"
    using ev(2) by (rule CommandStartedEvent_fields(2))
  have started: "count_events (started_for r) ?c' =
      count_events (started_for r) conn + (if r = ?rid then 1 else 0)" for r
    by (simp add: dispatched_state_def count_events_def ev(1) rid)
  have succeeded: "count_events (succeeded_for r) ?c' = count_events (succeeded_for r) conn" for r
    by (simp add: dispatched_state_def count_events_def ev(1))
  have failed: "count_events (failed_for r) ?c' = count_events (failed_for r) conn" for r
    by (simp add: dispatched_state_def count_events_def ev(1))
  have old_started: "count_events (started_for r) conn = (if r < ?rid then 1 else 0)" for r
    using e by (simp add: ev_inv_def)
  have old_terminal: "count_events (succeeded_for r) conn + count_events (failed_for r) conn =
      (if (r, False) \<in> set (dispatchHistory conn) \<and> \<not> is_pending r conn then 1 else 0)" for r
    using e by (simp add: ev_inv_def)
  note fresh = wait_inv_counter_fresh [OF w]
  have pend: "is_pending r ?c' \<longleftrightarrow> is_pending r conn \<or> (r = ?rid \<and> \<not> noResponse opts)" for r
    by (auto simp: is_pending_def dispatched_state_def)
  have hist: "(r, False) \<in> set (dispatchHistory ?c') \<longleftrightarrow>
      (r, False) \<in> set (dispatchHistory conn) \<or> (r = ?rid \<and> \<not> noResponse opts)" for r
    by (auto simp: dispatched_state_def)
  have cnt: "requestIdCounter ?c' = Suc ?rid"
    by (simp add: dispatched_state_def)
  have 1: "count_events (started_for r) ?c' = (if r < requestIdCounter ?c' then 1 else 0)" for r
    using old_started [of r] by (auto simp: started cnt)
  have 2: "count_events (succeeded_for r) ?c' + count_events (failed_for r) ?c' =
      (if (r, False) \<in> set (dispatchHistory ?c') \<and> \<not> is_pending r ?c' then 1 else 0)" for r
    using old_terminal [of r] fresh by (auto simp: succeeded failed pend hist)
  have 3: "\<forall>e \<in> set (emittedEvents ?c'). event_connectionId e = generateConnectionId addr"
    using e cid by (auto simp: ev_inv_def dispatched_state_def ev(1))
  have 4: "hostAddress ?c' = addr" "monitorCommands ?c'"
    using mon addr by (simp_all add: dispatched_state_def)
  from 1 2 3 4 show ?thesis
    by (simp add: ev_inv_def)
qed

lemma dispatch_preserves:
  assumes w: "wait_inv conn" and d: "dispatch now cmnd opts write_error conn = Inr conn'"
  shows "wait_inv conn'" and "ev_inv addr conn \<Longrightarrow> ev_inv addr conn'"
proof -
  have "wait_inv conn' \<and> (ev_inv addr conn \<longrightarrow> ev_inv addr conn')"
  proof (cases "lifecycle_state conn = OPEN")
    case False
    with d have "conn' = conn"
      by (simp add: dispatch_def)
    with w show ?thesis by simp
  next
    case True
    from dispatch_effect [OF d True] obtain cmnd' evs where
      a: "assignRequestId cmnd (requestIdCounter conn) = Inr cmnd'"
      and evs: "if monitorCommands conn
        then \<exists>ev. evs = [ev] \<and> CommandStartedEvent (hostAddress conn) cmnd' = Inr ev
        else evs = []"
      and r: "case write_error of
        None \<Rightarrow> conn' = dispatched_state now cmnd' opts write_error evs conn
      | Some e \<Rightarrow>
          teardown now e (dispatched_state now cmnd' opts write_error evs conn) = Inr conn'"
      by blast
    let ?c = "dispatched_state now cmnd' opts write_error evs conn"
    have w': "wait_inv ?c"
      using w True a evs by (rule dispatched_wait_inv)
    have e': "ev_inv addr conn \<Longrightarrow> ev_inv addr ?c"
      using w _ a evs by (rule dispatched_ev_inv)
    show ?thesis
    proof (cases write_error)
      case None
      with r w' e' show ?thesis by simp
    next
      case (Some err)
      with r have t: "teardown now err ?c = Inr conn'" by simp
      from teardown_wait_inv [OF w' t] teardown_ev_inv [OF w' _ t] e' show ?thesis
        by blast
    qed
  qed
  then show "wait_inv conn'" and "ev_inv addr conn \<Longrightarrow> ev_inv addr conn'"
    by simp_all
qed

lemma remove_wait_inv:
  assumes "wait_inv conn"
  shows "wait_inv (conn\<lparr>emittedEvents := es, callerResolutions := rs,
                       pendingWaiters := filter (\<lambda>rw. fst rw \<noteq> rid) (pendingWaiters conn)\<rparr>)"
  using assms by (auto simp: wait_inv_def distinct_map_filter)

lemma is_pending_filter:
  "is_pending r (conn\<lparr>emittedEvents := es, callerResolutions := rs,
                       pendingWaiters := filter (\<lambda>rw. fst rw \<noteq> rid) (pendingWaiters conn)\<rparr>) \<longleftrightarrow>
   is_pending r conn \<and> r \<noteq> rid"
  by (auto simp: is_pending_def)

lemma finished_ev_inv:
  assumes w: "wait_inv conn" and e: "ev_inv addr conn"
    and p: "(rid, wt) \<in> set (pendingWaiters conn)"
    and t: "succeeded_for rid ev \<or> failed_for rid ev" "\<not> started_for r' ev"
       "event_connectionId ev = generateConnectionId addr"
  shows "ev_inv addr (conn\<lparr>emittedEvents := emittedEvents conn @ [ev], callerResolutions := rs,
                       pendingWaiters := filter (\<lambda>rw. fst rw \<noteq> rid) (pendingWaiters conn)\<rparr>)"
    (is "ev_inv addr ?c'")
proof -
  from w p have hist: "(rid, False) \<in> set (dispatchHistory conn)"
    by (auto simp: wait_inv_def)
  from p have pend: "is_pending rid conn"
    by (force simp: is_pending_def)
  have kind: "(\<exists>s. ev = Succeeded s \<and> requestId s = JNum (int rid)) \<or>
      (\<exists>f. ev = Failed f \<and> requestId f = JNum (int rid))"
    using t(1) by (cases ev) auto
  have started: "count_events (started_for r) ?c' = count_events (started_for r) conn" for r
    using kind by (auto simp: count_events_def)
  have terminal: "count_events (succeeded_for r) ?c' + count_events (failed_for r) ?c' =
      count_events (succeeded_for r) conn + count_events (failed_for r) conn +
      (if r = rid then 1 else 0)" for r
    using kind by (auto simp: count_events_def)
  have old: "count_events (succeeded_for r) conn + count_events (failed_for r) conn =
      (if (r, False) \<in> set (dispatchHistory conn) \<and> \<not> is_pending r conn then 1 else 0)" for r
    using e by (simp add: ev_inv_def)
  have 2: "count_events (succeeded_for r) ?c' + count_events (failed_for r) ?c' =
      (if (r, False) \<in> set (dispatchHistory ?c') \<and> \<not> is_pending r ?c' then 1 else 0)" for r
    using old [of r] hist pend by (auto simp: terminal is_pending_filter)
  have 1: "count_events (started_for r) ?c' = (if r < requestIdCounter ?c' then 1 else 0)" for r
    using e by (simp add: started ev_inv_def)
  have 3: "\<forall>e \<in> set (emittedEvents ?c'). event_connectionId e = generateConnectionId addr"
    using e t(3) by (auto simp: ev_inv_def)
  have 4: "hostAddress ?c' = addr" "monitorCommands ?c'"
    using e by (simp_all add: ev_inv_def)
  from 1 2 3 4 show ?thesis
    by (simp add: ev_inv_def)
qed

lemma receive_reply_preserves:
  assumes w: "wait_inv conn" and d: "receive_reply now rid rply conn = Inr conn'"
  shows "wait_inv conn'" and "ev_inv addr conn \<Longrightarrow> ev_inv addr conn'"
proof -
  have "wait_inv conn' \<and> (ev_inv addr conn \<longrightarrow> ev_inv addr conn')"
  proof (cases "lifecycle_state conn = OPEN \<and> map_of (pendingWaiters conn) rid \<noteq> None")
    case False
    with d have "conn' = conn"
      by (auto simp: receive_reply_def split: if_splits)
    with w show ?thesis by simp
  next
    case True
    then obtain wt where wt: "map_of (pendingWaiters conn) rid = Some wt"
      and o: "lifecycle_state conn = OPEN"
      by auto
    then have p: "(rid, wt) \<in> set (pendingWaiters conn)"
      by (simp add: map_of_SomeD)
    from d wt o obtain result conn1 where
      es: "emit_succeeded now wt rply conn = Inr conn1"
      and c': "conn' = resolve rid (Resolved result) (remove_waiter rid conn1)"
      by (auto simp: receive_reply_def bindE_eq_Inr)
    show ?thesis
    proof (cases "monitorCommands conn")
      case False
      with es have "conn1 = conn"
        by (simp add: emit_succeeded_def)
      with c' have c: "conn' = conn\<lparr>emittedEvents := emittedEvents conn,
          callerResolutions := callerResolutions conn @ [(rid, Resolved result)],
          pendingWaiters := filter (\<lambda>rw. fst rw \<noteq> rid) (pendingWaiters conn)\<rparr>"
        by (simp add: resolve_def remove_waiter_def)
      have "wait_inv conn'"
        unfolding c using w by (rule remove_wait_inv)
      with False show ?thesis
        by (simp add: ev_inv_def)
    next
      case True
      with es obtain ev where ev: "CommandSucceededEvent (hostAddress conn) (w_command wt) rply
          (w_started wt) now = Inr ev" and c1: "conn1 = emit (Succeeded ev) conn"
        by (auto simp: emit_succeeded_def bindE_eq_Inr)
      from c' c1 have c: "conn' = conn\<lparr>emittedEvents := emittedEvents conn @ [Succeeded ev],
          callerResolutions := callerResolutions conn @ [(rid, Resolved result)],
          pendingWaiters := filter (\<lambda>rw. fst rw \<noteq> rid) (pendingWaiters conn)\<rparr>"
        by (simp add: resolve_def remove_waiter_def emit_def)
      have wi: "wait_inv conn'"
        unfolding c using w by (rule remove_wait_inv)
      have rid: "requestId ev = JNum (int rid)"
        using CommandSucceededEvent_fields(1) [OF ev] w p by (auto simp: wait_inv_def)
      have "ev_inv addr conn'" if e: "ev_inv addr conn"
      proof -
        have "connectionId ev = generateConnectionId addr"
          using CommandSucceededEvent_fields(2) [OF ev] e by (simp add: ev_inv_def)
        with rid show ?thesis
          unfolding c by (intro finished_ev_inv [OF w e p]) simp_all
      qed
      with wi show ?thesis by simp
    qed
  qed
  then show "wait_inv conn'" and "ev_inv addr conn \<Longrightarrow> ev_inv addr conn'"
    by simp_all
qed

lemma receive_error_preserves:
  assumes w: "wait_inv conn" and d: "receive_error now rid err conn = Inr conn'"
  shows "wait_inv conn'" and "ev_inv addr conn \<Longrightarrow> ev_inv addr conn'"
proof -
  have "wait_inv conn' \<and> (ev_inv addr conn \<longrightarrow> ev_inv addr conn')"
  proof (cases "lifecycle_state conn = OPEN \<and> map_of (pendingWaiters conn) rid \<noteq> None")
    case False
    with d have "conn' = conn"
      by (auto simp: receive_error_def split: if_splits)
    with w show ?thesis by simp
  next
    case True
    then obtain wt where wt: "map_of (pendingWaiters conn) rid = Some wt"
      and o: "lifecycle_state conn = OPEN"
      by auto
    then have p: "(rid, wt) \<in> set (pendingWaiters conn)"
      by (simp add: map_of_SomeD)
    from d wt o obtain conn1 where
      f: "fail_waiter now err (rid, wt) conn = Inr conn1"
      and c': "conn' = remove_waiter rid conn1"
      by (auto simp: receive_error_def bindE_eq_Inr)
    from fail_waiter_effect [OF f] obtain evs where
      fe: "failed_events_for conn evs [(rid, wt)]"
      and c1: "conn1 = conn\<lparr>emittedEvents := emittedEvents conn @ map Failed evs,
                  callerResolutions := callerResolutions conn @ [(fst (rid, wt), Rejected err)]\<rparr>"
      by blast
    from c' c1 have c: "conn' = conn\<lparr>emittedEvents := emittedEvents conn @ map Failed evs,
          callerResolutions := callerResolutions conn @ [(rid, Rejected err)],
          pendingWaiters := filter (\<lambda>rw. fst rw \<noteq> rid) (pendingWaiters conn)\<rparr>"
      by (simp add: remove_waiter_def)
    have wi: "wait_inv conn'"
      unfolding c using w by (rule remove_wait_inv)
    have "ev_inv addr conn'" if e: "ev_inv addr conn"
    proof -
      from e have mon: "monitorCommands conn" and addr: "hostAddress conn = addr"
        by (simp_all add: ev_inv_def)
      with fe obtain ev where ev: "evs = [ev]"
        "requestId ev = getv (w_command wt) ''requestId''"
        "connectionId ev = generateConnectionId addr"
        by (auto simp: failed_events_for_def list_all2_Cons2)
      have "requestId ev = JNum (int rid)"
        using ev(2) w p by (auto simp: wait_inv_def)
      with ev(3) show ?thesis
        unfolding c ev(1) list.map by (intro finished_ev_inv [OF w e p]) simp_all
    qed
    with wi show ?thesis by simp
  qed
  then show "wait_inv conn'" and "ev_inv addr conn \<Longrightarrow> ev_inv addr conn'"
    by simp_all
qed

lemma fold_min_le:
  fixes x :: int
  shows "fold min xs x \<le> x \<and> (\<forall>y \<in> set xs. fold min xs x \<le> y)"
proof (induction xs arbitrary: x)
  case Nil
  show ?case by simp
next
  case (Cons a xs)
  from Cons.IH [of "min a x"] show ?case
    by auto
qed

lemma first_deadline_le:
  assumes "rw \<in> set ws" and "w_deadline (snd rw) = Some d"
  shows "\<exists>d'. first_deadline ws = Some d' \<and> d' \<le> d"
proof -
  have m: "d \<in> set (deadlines ws)"
    using assms by (force simp: deadlines_def)
  then obtain x xs where c: "deadlines ws = x # xs"
    by (cases "deadlines ws") auto
  with m fold_min_le [of xs x] show ?thesis
    by (auto simp: first_deadline_def)
qed

lemma tick_cases:
  assumes "tick now conn = Inr conn'"
  shows "conn' = conn \<or>
     (lifecycle_state conn = OPEN \<and> (\<exists>d. d \<le> now \<and> teardown d timeout_error conn = Inr conn'))"
  using assms by (auto simp: tick_def split: if_splits option.splits)

lemma tick_fires:
  assumes "lifecycle_state conn = OPEN" and "rw \<in> set (pendingWaiters conn)"
    and "w_deadline (snd rw) = Some d" and "d \<le> now"
  shows "\<exists>d'. d' \<le> d \<and> tick now conn = teardown d' timeout_error conn"
  using first_deadline_le [OF assms(2,3)] assms(1,4) by (auto simp: tick_def)

lemma tick_preserves:
  assumes w: "wait_inv conn" and d: "tick now conn = Inr conn'"
  shows "wait_inv conn'" and "ev_inv addr conn \<Longrightarrow> ev_inv addr conn'"
proof -
  have "wait_inv conn' \<and> (ev_inv addr conn \<longrightarrow> ev_inv addr conn')"
  proof (cases "conn' = conn")
    case True
    with w show ?thesis by simp
  next
    case False
    with tick_cases [OF d] obtain t where t: "teardown t timeout_error conn = Inr conn'"
      by blast
    from teardown_wait_inv [OF w t] teardown_ev_inv [OF w _ t] show ?thesis
      by blast
  qed
  then show "wait_inv conn'" and "ev_inv addr conn \<Longrightarrow> ev_inv addr conn'"
    by simp_all
qed

lemma handle_preserves:
  assumes "wait_inv conn" and "handle conn i = Inr conn'"
  shows "wait_inv conn'" and "ev_inv addr conn \<Longrightarrow> ev_inv addr conn'"
proof -
  obtain now inp where i: "i = (now, inp)"
    by (cases i)
  have "wait_inv conn' \<and> (ev_inv addr conn \<longrightarrow> ev_inv addr conn')"
  proof (cases inp)
    case (Dispatch cmnd opts write_error)
    with assms i dispatch_preserves(1) [of conn now cmnd opts write_error conn'] dispatch_preserves(2) [of conn now cmnd opts write_error conn' addr]
    show ?thesis by simp
  next
    case (Reply rid rply)
    with assms i receive_reply_preserves(1) [of conn now rid rply conn'] receive_reply_preserves(2) [of conn now rid rply conn' addr]
    show ?thesis by simp
  next
    case (Fail rid err)
    with assms i receive_error_preserves(1) [of conn now rid err conn'] receive_error_preserves(2) [of conn now rid err conn' addr]
    show ?thesis by simp
  next
    case Tick
    with assms i show ?thesis by simp
  qed
  then show "wait_inv conn'" and "ev_inv addr conn \<Longrightarrow> ev_inv addr conn'"
    by simp_all
qed

lemma step_preserves:
  assumes w: "wait_inv conn" and s: "step conn i = Inr conn'"
  shows "wait_inv conn'" and "ev_inv addr conn \<Longrightarrow> ev_inv addr conn'"
proof -
  obtain now inp where i: "i = (now, inp)"
    by (cases i)
  from s i obtain c where t: "tick now conn = Inr c" and h: "handle c (now, inp) = Inr conn'"
    by (auto simp: bindE_eq_Inr)
  from tick_preserves(1) [OF w t] have wc: "wait_inv c" .
  from handle_preserves(1) [OF wc h] show "wait_inv conn'" .
  assume "ev_inv addr conn"
  from tick_preserves(2) [OF w t this] have "ev_inv addr c" .
  from handle_preserves(2) [OF wc h this] show "ev_inv addr conn'" .
qed

lemma run_preserves:
  "wait_inv conn \<Longrightarrow> run conn inputs = Inr conn' \<Longrightarrow>
   wait_inv conn' \<and> (ev_inv addr conn \<longrightarrow> ev_inv addr conn')"
proof (induction inputs arbitrary: conn)
  case Nil
  then show ?case by simp
next
  case (Cons i inputs)
  then obtain conn1 where 1: "step conn i = Inr conn1" and 2: "run conn1 inputs = Inr conn'"
    by (auto simp: bindE_eq_Inr)
  from step_preserves(1) [OF Cons.prems(1) 1] step_preserves(2) [OF Cons.prems(1) 1, of addr]
    Cons.IH [OF _ 2] show ?case
    by blast
qed

lemma new_connection_inv:
  "wait_inv (new_connection addr timeout balanced monitoring)"
  "ev_inv addr (new_connection addr timeout balanced True)"
  by (simp_all add: wait_inv_def ev_inv_def new_connection_def count_events_def is_pending_def)

lemmas connection_defs =
  dispatch_def emit_started_def write_command_def receive_reply_def emit_succeeded_def
  receive_error_def fail_waiter_def teardown_def tick_def first_deadline_def deadlines_def emit_def resolve_def
  remove_waiter_def new_connection_def

lemmas connection_example_defs =
  ping_request_def await_reply_def ping_started_def ping_failed_def replied_connection_def
  ping_waiter_def one_pending_connection_def two_pending_connection_def
  timed_out_connection_def fire_and_forget_def forgotten_connection_def localhost_def
  ok_reply_def

lemma replied_run:
  "run (new_connection localhost None False True)
     [(0, Dispatch ping_request await_reply None), (5, Reply 0 ok_reply)] = Inr replied_connection"
  by (simp add: connection_defs connection_example_defs translator_defs factory_defs)

lemma one_pending_step:
  "step (new_connection localhost None False True) (0, Dispatch ping_request await_reply None) =
     Inr one_pending_connection"
  by (simp add: connection_defs connection_example_defs translator_defs factory_defs)

lemma two_pending_step:
  "step one_pending_connection
     (10, Dispatch ping_request \<lparr>noResponse = False, socketTimeout = Some 50\<rparr> None) =
     Inr two_pending_connection"
  by (simp add: connection_defs connection_example_defs translator_defs factory_defs)

lemma timed_out_step:
  "step two_pending_connection (60, Tick) = Inr timed_out_connection"
  by (simp add: connection_defs connection_example_defs translator_defs factory_defs timeout_error_def)

lemma late_reply_run:
  "run two_pending_connection [(1000, Reply 1 ok_reply)] = Inr timed_out_connection"
  by (simp add: connection_defs connection_example_defs translator_defs factory_defs timeout_error_def)

lemma closed_handle: "lifecycle_state conn \<noteq> OPEN \<Longrightarrow> handle conn i = Inr conn"
proof -
  assume c: "lifecycle_state conn \<noteq> OPEN"
  obtain now inp where "i = (now, inp)"
    by (cases i)
  with c show ?thesis
    by (cases inp) (simp_all add: dispatch_def receive_reply_def receive_error_def)
qed

lemma closed_step: "lifecycle_state conn \<noteq> OPEN \<Longrightarrow> step conn i = Inr conn"
proof -
  assume c: "lifecycle_state conn \<noteq> OPEN"
  obtain now inp where i: "i = (now, inp)"
    by (cases i)
  from c have "tick now conn = Inr conn"
    by (simp add: tick_def)
  with closed_handle [OF c, of "(now, inp)"] i show ?thesis
    by simp
qed

lemma closed_run: "lifecycle_state conn \<noteq> OPEN \<Longrightarrow> run conn inputs = Inr conn"
  by (induction inputs) (simp_all add: closed_step del: step.simps)

text \<open>What a step can do to the counter and to the table of waiters: empty the table,
  remove the waiter of one request, or add waiters under the next request id.\<close>

lemma handle_waiters:
  assumes s: "handle conn i = Inr conn'"
  shows "requestIdCounter conn \<le> requestIdCounter conn' \<and>
     (pendingWaiters conn' = [] \<or>
      (\<exists>rid. pendingWaiters conn' = filter (\<lambda>rw. fst rw \<noteq> rid) (pendingWaiters conn)) \<or>
      (\<exists>ws. pendingWaiters conn' = pendingWaiters conn @ ws \<and>
            (\<forall>rw \<in> set ws. fst rw = requestIdCounter conn)))"
    (is "?shape conn'")
proof -
  obtain now inp where i: "i = (now, inp)"
    by (cases i)
  have same: "?shape conn"
    by (intro conjI disjI2 exI [of _ "[]"]) simp_all
  have torn: "?shape c'" if "teardown now e c = Inr c'"
    "requestIdCounter conn \<le> requestIdCounter c" for e c c'
    using teardown_effect [OF that(1)] that(2) by auto
  have removed: "?shape (remove_waiter rid c)"
    if "requestIdCounter c = requestIdCounter conn" "pendingWaiters c = pendingWaiters conn"
    for rid c
    using that by (auto simp: remove_waiter_def)
  show ?thesis
  proof (cases inp)
    case (Dispatch cmnd opts write_error)
    show ?thesis
    proof (cases "lifecycle_state conn = OPEN")
      case False
      with s same show ?thesis by (simp add: closed_handle)
    next
      case True
      from s i Dispatch have d: "dispatch now cmnd opts write_error conn = Inr conn'"
        by simp
      from dispatch_effect [OF d True] obtain cmnd' evs where
        r: "case write_error of
          None \<Rightarrow> conn' = dispatched_state now cmnd' opts write_error evs conn
        | Some e \<Rightarrow>
            teardown now e (dispatched_state now cmnd' opts write_error evs conn) = Inr conn'"
        by blast
      show ?thesis
      proof (cases write_error)
        case None
        with r show ?thesis by (simp add: dispatched_state_def)
      next
        case (Some e)
        with r show ?thesis
          by (intro torn [of e "dispatched_state now cmnd' opts write_error evs conn"])
             (simp_all add: dispatched_state_def)
      qed
    qed
  next
    case (Reply rid rply)
    with s i have r: "receive_reply now rid rply conn = Inr conn'"
      by simp
    show ?thesis
    proof (cases "lifecycle_state conn = OPEN \<and> map_of (pendingWaiters conn) rid \<noteq> None")
      case False
      with r same show ?thesis
        by (auto simp: receive_reply_def split: if_splits)
    next
      case True
      with r obtain wt result conn1 where "emit_succeeded now wt rply conn = Inr conn1"
        "conn' = resolve rid (Resolved result) (remove_waiter rid conn1)"
        by (auto simp: receive_reply_def bindE_eq_Inr)
      then show ?thesis
        by (auto simp: emit_succeeded_def bindE_eq_Inr resolve_def remove_waiter_def emit_def
            split: if_splits)
    qed
  next
    case (Fail rid err)
    with s i have r: "receive_error now rid err conn = Inr conn'"
      by simp
    show ?thesis
    proof (cases "lifecycle_state conn = OPEN \<and> map_of (pendingWaiters conn) rid \<noteq> None")
      case False
      with r same show ?thesis
        by (auto simp: receive_error_def split: if_splits)
    next
      case True
      with r obtain wt conn1 where f: "fail_waiter now err (rid, wt) conn = Inr conn1"
        and c': "conn' = remove_waiter rid conn1"
        by (auto simp: receive_error_def bindE_eq_Inr)
      from fail_waiter_effect [OF f] show ?thesis
        unfolding c' by (intro removed) auto
    qed
  next
    case Tick
    with s i same show ?thesis
      by simp
  qed
qed

lemma step_waiters:
  assumes s: "step conn i = Inr conn'"
  shows "requestIdCounter conn \<le> requestIdCounter conn' \<and>
     (pendingWaiters conn' = [] \<or>
      (\<exists>rid. pendingWaiters conn' = filter (\<lambda>rw. fst rw \<noteq> rid) (pendingWaiters conn)) \<or>
      (\<exists>ws. pendingWaiters conn' = pendingWaiters conn @ ws \<and>
            (\<forall>rw \<in> set ws. fst rw = requestIdCounter conn)))"
proof -
  obtain now inp where i: "i = (now, inp)"
    by (cases i)
  from s i obtain c where t: "tick now conn = Inr c" and h: "handle c (now, inp) = Inr conn'"
    by (auto simp: bindE_eq_Inr)
  show ?thesis
  proof (cases "c = conn")
    case True
    with h handle_waiters [of conn "(now, inp)" conn'] show ?thesis
      by simp
  next
    case False
    with tick_cases [OF t] obtain d where "teardown d timeout_error conn = Inr c"
      by blast
    from teardown_effect [OF this] have c: "lifecycle_state c \<noteq> OPEN" "pendingWaiters c = []"
      "requestIdCounter c = requestIdCounter conn"
      by auto
    from h closed_handle [OF c(1), of "(now, inp)"] have "conn' = c"
      by simp
    with c show ?thesis
      by simp
  qed
qed

lemma step_keeps_waiter:
  assumes "step conn i = Inr conn'" and "rw \<in> set (pendingWaiters conn)"
    and "is_pending (fst rw) conn'"
  shows "rw \<in> set (pendingWaiters conn')"
  using step_waiters [OF assms(1)] assms(2,3) by (auto simp: is_pending_def)

lemma step_pending_was_pending:
  assumes "step conn i = Inr conn'" and "is_pending r conn'" and "r < requestIdCounter conn"
  shows "is_pending r conn"
  using step_waiters [OF assms(1)] assms(2,3) by (force simp: is_pending_def)

lemma run_never_pending_again:
  "run conn inputs = Inr conn' \<Longrightarrow> \<not> is_pending r conn \<Longrightarrow> r < requestIdCounter conn \<Longrightarrow>
   \<not> is_pending r conn'"
proof (induction inputs arbitrary: conn)
  case Nil
  then show ?case by simp
next
  case (Cons i inputs)
  then obtain conn1 where 1: "step conn i = Inr conn1" and 2: "run conn1 inputs = Inr conn'"
    by (auto simp: bindE_eq_Inr)
  have "\<not> is_pending r conn1"
    using step_pending_was_pending [OF 1 _ Cons.prems(3)] Cons.prems(2) by blast
  moreover have "r < requestIdCounter conn1"
    using step_waiters [OF 1] Cons.prems(3) by simp
  ultimately show ?case
    using Cons.IH [OF 2] by blast
qed

lemma run_keeps_waiter:
  "run conn inputs = Inr conn' \<Longrightarrow> rw \<in> set (pendingWaiters conn) \<Longrightarrow>
   fst rw < requestIdCounter conn \<Longrightarrow> is_pending (fst rw) conn' \<Longrightarrow>
   rw \<in> set (pendingWaiters conn')"
proof (induction inputs arbitrary: conn)
  case Nil
  then show ?case by simp
next
  case (Cons i inputs)
  then obtain conn1 where 1: "step conn i = Inr conn1" and 2: "run conn1 inputs = Inr conn'"
    by (auto simp: bindE_eq_Inr)
  have lt: "fst rw < requestIdCounter conn1"
    using step_waiters [OF 1] Cons.prems(3) by simp
  have "is_pending (fst rw) conn1"
    using run_never_pending_again [OF 2 _ lt] Cons.prems(4) by blast
  from step_keeps_waiter [OF 1 Cons.prems(2) this] have "rw \<in> set (pendingWaiters conn1)" .
  from Cons.IH [OF 2 this lt Cons.prems(4)] show ?case .
qed

lemma forgotten_run:
  "run (new_connection localhost None False True) [(0, Dispatch ping_request fire_and_forget None)] =
     Inr forgotten_connection"
  by (simp add: connection_defs connection_example_defs translator_defs factory_defs)

subsection \<open>C7: one Started event and one terminal event\<close>

text \<open>
  C7: every dispatched command that is not fire-and-forget produces exactly one Started
  event and exactly one terminal event, Succeeded or Failed, with the same request id;
  the Started event and a Succeeded or Failed event built from the same command carry
  the command's request id and the same connection id, built from the same host and
  port. On a monitored connection, after any run of dispatches, replies, errors and
  clock readings: a request that awaits a reply has exactly one Started event; the
  number of its Succeeded events plus the number of its Failed events is one once it is
  no longer pending, and zero while it is; a fire-and-forget request has one Started
  event and no terminal event; and every event carries the connection id of the
  connection's address. The events of one request are counted by request id, so they
  agree on it. On the constructors themselves: events built from the same pool and
  command agree on \<open>requestId\<close>, which is the command's, and on \<open>connectionId\<close>.
\<close>

theorem C7_one_started_one_terminal:
  "(run (new_connection addr timeout balanced True) inputs = Inr conn \<and>
    (rid, False) \<in> set (dispatchHistory conn) \<longrightarrow>
      count_events (started_for rid) conn = 1 \<and>
      count_events (succeeded_for rid) conn + count_events (failed_for rid) conn =
        (if is_pending rid conn then 0 else 1) \<and>
      (\<forall>e \<in> set (emittedEvents conn). event_connectionId e = generateConnectionId addr)) \<and>
   (run (new_connection addr timeout balanced True) inputs = Inr conn \<and>
    (rid, True) \<in> set (dispatchHistory conn) \<longrightarrow>
      count_events (started_for rid) conn = 1 \<and>
      count_events (succeeded_for rid) conn + count_events (failed_for rid) conn = 0) \<and>
   (CommandStartedEvent pool cmnd = Inr s \<and>
    CommandSucceededEvent pool cmnd rply started now = Inr t \<longrightarrow>
      requestId s = getv cmnd ''requestId'' \<and> requestId t = requestId s \<and>
      connectionId s = generateConnectionId pool \<and> connectionId t = connectionId s) \<and>
   (CommandStartedEvent pool cmnd = Inr s \<and>
    CommandFailedEvent pool cmnd err started now = Inr f \<longrightarrow>
      requestId s = getv cmnd ''requestId'' \<and> requestId f = requestId s \<and>
      connectionId s = generateConnectionId pool \<and> connectionId f = connectionId s)"
proof -
  have inv: "wait_inv conn \<and> ev_inv addr conn"
    if "run (new_connection addr timeout balanced True) inputs = Inr conn"
    using run_preserves [OF new_connection_inv(1) that, of addr] new_connection_inv(2) by blast
  have lt: "r < requestIdCounter conn" if "wait_inv conn" "(r, b) \<in> set (dispatchHistory conn)" for r b
  proof -
    from that(2) have "r \<in> set (map fst (dispatchHistory conn))"
      by force
    with that(1) show ?thesis
      by (simp add: wait_inv_def)
  qed
  have 1: "count_events (started_for rid) conn = 1 \<and>
      count_events (succeeded_for rid) conn + count_events (failed_for rid) conn =
        (if is_pending rid conn then 0 else 1) \<and>
      (\<forall>e \<in> set (emittedEvents conn). event_connectionId e = generateConnectionId addr)"
    if "run (new_connection addr timeout balanced True) inputs = Inr conn"
      "(rid, False) \<in> set (dispatchHistory conn)"
    using inv [OF that(1)] lt [OF _ that(2)] that(2) by (simp add: ev_inv_def)
  have distinct_hist: "distinct (map fst (dispatchHistory conn))" if "wait_inv conn"
    using that by (simp add: wait_inv_def)
  have 2: "count_events (started_for rid) conn = 1 \<and>
      count_events (succeeded_for rid) conn + count_events (failed_for rid) conn = 0"
    if r: "run (new_connection addr timeout balanced True) inputs = Inr conn"
      and t: "(rid, True) \<in> set (dispatchHistory conn)"
  proof -
    from inv [OF r] have w: "wait_inv conn" and e: "ev_inv addr conn"
      by simp_all
    have "(rid, False) \<notin> set (dispatchHistory conn)"
      using eq_key_imp_eq_value [OF distinct_hist [OF w] t, of False] by auto
    with e lt [OF w t] show ?thesis
      by (simp add: ev_inv_def)
  qed
  have 3: "requestId s = getv cmnd ''requestId'' \<and> requestId t = requestId s \<and>
      connectionId s = generateConnectionId pool \<and> connectionId t = connectionId s"
    if "CommandStartedEvent pool cmnd = Inr s" "CommandSucceededEvent pool cmnd rply started now = Inr t"
    using CommandStartedEvent_fields(1,2) [OF that(1)] CommandSucceededEvent_fields [OF that(2)]
    by simp
  have 4: "requestId s = getv cmnd ''requestId'' \<and> requestId f = requestId s \<and>
      connectionId s = generateConnectionId pool \<and> connectionId f = connectionId s"
    if "CommandStartedEvent pool cmnd = Inr s" "CommandFailedEvent pool cmnd err started now = Inr f"
    using CommandStartedEvent_fields(1,2) [OF that(1)] CommandFailedEvent_fields [OF that(2)]
    by simp
  from 1 2 3 4 show ?thesis
    by blast
qed

text \<open>
  C7 on a ping that is answered, on a ping that is fire-and-forget, and on the events
  built from one ping command.
\<close>

theorem C7_one_started_one_terminal_witness:
  "run (new_connection localhost None False True)
     [(0, Dispatch ping_request await_reply None), (5, Reply 0 ok_reply)] = Inr replied_connection \<and>
   (0, False) \<in> set (dispatchHistory replied_connection) \<and>
   \<not> is_pending 0 replied_connection \<and>
   count_events (started_for 0) replied_connection = 1 \<and>
   count_events (succeeded_for 0) replied_connection +
     count_events (failed_for 0) replied_connection = 1 \<and>
   run (new_connection localhost None False True) [(0, Dispatch ping_request fire_and_forget None)] =
     Inr forgotten_connection \<and>
   (0, True) \<in> set (dispatchHistory forgotten_connection) \<and>
   count_events (started_for 0) forgotten_connection = 1 \<and>
   count_events (succeeded_for 0) forgotten_connection +
     count_events (failed_for 0) forgotten_connection = 0 \<and>
   (\<exists>s t f. CommandStartedEvent localhost ping_command = Inr s \<and>
      CommandSucceededEvent localhost ping_command ok_reply 5 10 = Inr t \<and>
      CommandFailedEvent localhost ping_command server_error 5 10 = Inr f \<and>
      requestId s = JNum 8 \<and> requestId t = JNum 8 \<and> requestId f = JNum 8 \<and>
      connectionId s = ''localhost:27017'' \<and> connectionId t = ''localhost:27017'' \<and>
      connectionId f = ''localhost:27017'')"
proof -
  have p: "\<not> is_pending 0 replied_connection"
    and h: "(0, False) \<in> set (dispatchHistory replied_connection)"
    and h': "(0, True) \<in> set (dispatchHistory forgotten_connection)"
    by (simp_all add: is_pending_def replied_connection_def forgotten_connection_def)
  obtain s where s: "CommandStartedEvent localhost ping_command = Inr s"
    by (simp add: translator_defs factory_defs example_defs)
  obtain t where t: "CommandSucceededEvent localhost ping_command ok_reply 5 10 = Inr t"
    by (simp add: translator_defs factory_defs example_defs)
  obtain f where f: "CommandFailedEvent localhost ping_command server_error 5 10 = Inr f"
    by (simp add: translator_defs factory_defs example_defs)
  have r: "getv ping_command ''requestId'' = JNum 8"
    by (simp add: ping_command_def getv_def lookup_prop_def)
  note a = C7_one_started_one_terminal [of localhost None False
      "[(0, Dispatch ping_request await_reply None), (5, Reply 0 ok_reply)]" replied_connection 0
      localhost ping_command s ok_reply 5 10 t server_error f]
  note b = C7_one_started_one_terminal [of localhost None False
      "[(0, Dispatch ping_request fire_and_forget None)]" forgotten_connection 0
      localhost ping_command s ok_reply 5 10 t server_error f]
  have 1: "count_events (started_for 0) replied_connection = 1 \<and>
      count_events (succeeded_for 0) replied_connection +
        count_events (failed_for 0) replied_connection = 1"
    using a replied_run h p by simp
  have 2: "count_events (started_for 0) forgotten_connection = 1 \<and>
      count_events (succeeded_for 0) forgotten_connection +
        count_events (failed_for 0) forgotten_connection = 0"
    using b forgotten_run h' by simp
  have 3: "requestId s = JNum 8 \<and> requestId t = JNum 8 \<and> requestId f = JNum 8 \<and>
      connectionId s = ''localhost:27017'' \<and> connectionId t = ''localhost:27017'' \<and>
      connectionId f = ''localhost:27017''"
    using a s t f r connectionId_localhost by simp
  from 3 s t f have "\<exists>s t f. CommandStartedEvent localhost ping_command = Inr s \<and>
      CommandSucceededEvent localhost ping_command ok_reply 5 10 = Inr t \<and>
      CommandFailedEvent localhost ping_command server_error 5 10 = Inr f \<and>
      requestId s = JNum 8 \<and> requestId t = JNum 8 \<and> requestId f = JNum 8 \<and>
      connectionId s = ''localhost:27017'' \<and> connectionId t = ''localhost:27017'' \<and>
      connectionId f = ''localhost:27017''"
    by blast
  with replied_run forgotten_run h h' p 1 2 show ?thesis
    by simp
qed

text \<open>What a step can do to the resolutions of the callers: add resolutions, one for each
  of some requests that were pending or have just been dispatched, none of which is
  pending afterwards.\<close>

lemma teardown_resolutions:
  assumes w: "wait_inv conn" and t: "teardown now e conn = Inr conn'"
  shows "\<exists>new. callerResolutions conn' = callerResolutions conn @ new \<and>
     distinct (map fst new) \<and>
     (\<forall>x \<in> set new. \<not> is_pending (fst x) conn' \<and> is_pending (fst x) conn)"
proof -
  let ?new = "map (\<lambda>rw. (fst rw, Rejected e)) (pendingWaiters conn)"
  from teardown_effect [OF t] have c: "callerResolutions conn' = callerResolutions conn @ ?new"
    "pendingWaiters conn' = []"
    by auto
  have "distinct (map fst ?new)"
    using w by (simp add: wait_inv_def comp_def)
  moreover have "\<forall>x \<in> set ?new. \<not> is_pending (fst x) conn' \<and> is_pending (fst x) conn"
    using c(2) by (auto simp: is_pending_def)
  ultimately show ?thesis
    using c(1) by blast
qed

lemma handle_resolutions:
  assumes w: "wait_inv conn" and s: "handle conn i = Inr conn'"
  shows "\<exists>new. callerResolutions conn' = callerResolutions conn @ new \<and>
     distinct (map fst new) \<and>
     (\<forall>x \<in> set new. \<not> is_pending (fst x) conn' \<and>
        (is_pending (fst x) conn \<or>
         fst x = requestIdCounter conn \<and> requestIdCounter conn < requestIdCounter conn'))"
    (is "?shape conn'")
proof -
  obtain now inp where i: "i = (now, inp)"
    by (cases i)
  have same: "?shape conn"
    by (intro exI [of _ "[]"]) simp
  have one: "?shape c'"
    if "callerResolutions c' = callerResolutions conn @ [(rid, r)]"
      "pendingWaiters c' = filter (\<lambda>rw. fst rw \<noteq> rid) (pendingWaiters conn)"
      "is_pending rid conn" for c' rid r
    using that by (intro exI [of _ "[(rid, r)]"]) (auto simp: is_pending_def)
  show ?thesis
  proof (cases inp)
    case (Dispatch cmnd opts write_error)
    show ?thesis
    proof (cases "lifecycle_state conn = OPEN")
      case False
      with s same show ?thesis by (simp add: closed_handle)
    next
      case True
      from s i Dispatch have d: "dispatch now cmnd opts write_error conn = Inr conn'"
        by simp
      from dispatch_effect [OF d True] obtain cmnd' evs where
        a: "assignRequestId cmnd (requestIdCounter conn) = Inr cmnd'"
        and evs: "if monitorCommands conn
          then \<exists>ev. evs = [ev] \<and> CommandStartedEvent (hostAddress conn) cmnd' = Inr ev
          else evs = []"
        and r: "case write_error of
          None \<Rightarrow> conn' = dispatched_state now cmnd' opts write_error evs conn
        | Some e \<Rightarrow>
            teardown now e (dispatched_state now cmnd' opts write_error evs conn) = Inr conn'"
        by blast
      let ?c = "dispatched_state now cmnd' opts write_error evs conn"
      let ?rid = "requestIdCounter conn"
      let ?new = "if noResponse opts
           then [(?rid, case write_error of None \<Rightarrow> Resolved JUndefined | Some e \<Rightarrow> Rejected e)]
           else []"
      have fresh: "\<not> is_pending ?rid conn"
        using w by (rule wait_inv_counter_fresh)
      have c: "callerResolutions ?c = callerResolutions conn @ ?new"
        "requestIdCounter ?c = Suc ?rid"
        "noResponse opts \<Longrightarrow> pendingWaiters ?c = pendingWaiters conn"
        "\<not> noResponse opts \<Longrightarrow> fst ` set (pendingWaiters ?c) = insert ?rid (fst ` set (pendingWaiters conn))"
        by (simp_all add: dispatched_state_def)
      have pend: "is_pending r ?c \<longrightarrow> is_pending r conn \<or> r = ?rid" for r
        using c(3,4) by (cases "noResponse opts") (auto simp: is_pending_def)
      have nopend: "noResponse opts \<Longrightarrow> \<not> is_pending ?rid ?c"
        using c(3) fresh by (simp add: is_pending_def)
      show ?thesis
      proof (cases write_error)
        case None
        with r have "conn' = ?c" by simp
        with c(1,2) nopend show ?thesis
          by (intro exI [of _ ?new]) auto
      next
        case (Some e)
        with r have t: "teardown now e ?c = Inr conn'" by simp
        have w': "wait_inv ?c"
          using w True a evs by (rule dispatched_wait_inv)
        from teardown_resolutions [OF w' t] obtain new where
          n: "callerResolutions conn' = callerResolutions ?c @ new" "distinct (map fst new)"
            "\<forall>x \<in> set new. \<not> is_pending (fst x) conn' \<and> is_pending (fst x) ?c"
          by blast
        from teardown_effect [OF t] have e: "pendingWaiters conn' = []"
          "requestIdCounter conn' = Suc ?rid"
          by (auto simp: c(2))
        have 1: "callerResolutions conn' = callerResolutions conn @ (?new @ new)"
          using n(1) c(1) by simp
        have 2: "distinct (map fst (?new @ new))"
          using n(2,3) nopend by (auto simp: image_iff)
        have 3: "\<forall>x \<in> set (?new @ new). \<not> is_pending (fst x) conn' \<and>
            (is_pending (fst x) conn \<or>
             fst x = ?rid \<and> ?rid < requestIdCounter conn')"
          using n(3) pend e by (auto simp: is_pending_def)
        from 1 2 3 show ?thesis
          by blast
      qed
    qed
  next
    case (Reply rid rply)
    with s i have r: "receive_reply now rid rply conn = Inr conn'"
      by simp
    show ?thesis
    proof (cases "lifecycle_state conn = OPEN \<and> map_of (pendingWaiters conn) rid \<noteq> None")
      case False
      with r same show ?thesis
        by (auto simp: receive_reply_def split: if_splits)
    next
      case True
      then have p: "is_pending rid conn"
        by (auto simp: is_pending_def dest!: map_of_SomeD intro!: image_eqI [of _ fst])
      from True r obtain wt result conn1 where "emit_succeeded now wt rply conn = Inr conn1"
        "conn' = resolve rid (Resolved result) (remove_waiter rid conn1)"
        by (auto simp: receive_reply_def bindE_eq_Inr)
      then have "callerResolutions conn' = callerResolutions conn @ [(rid, Resolved result)]"
        "pendingWaiters conn' = filter (\<lambda>rw. fst rw \<noteq> rid) (pendingWaiters conn)"
        by (auto simp: emit_succeeded_def bindE_eq_Inr resolve_def remove_waiter_def emit_def
            split: if_splits)
      then show ?thesis
        using p by (rule one)
    qed
  next
    case (Fail rid err)
    with s i have r: "receive_error now rid err conn = Inr conn'"
      by simp
    show ?thesis
    proof (cases "lifecycle_state conn = OPEN \<and> map_of (pendingWaiters conn) rid \<noteq> None")
      case False
      with r same show ?thesis
        by (auto simp: receive_error_def split: if_splits)
    next
      case True
      then have p: "is_pending rid conn"
        by (auto simp: is_pending_def dest!: map_of_SomeD intro!: image_eqI [of _ fst])
      from True r obtain wt conn1 where f: "fail_waiter now err (rid, wt) conn = Inr conn1"
        and c': "conn' = remove_waiter rid conn1"
        by (auto simp: receive_error_def bindE_eq_Inr)
      from fail_waiter_effect [OF f] c'
      have "callerResolutions conn' = callerResolutions conn @ [(rid, Rejected err)]"
        "pendingWaiters conn' = filter (\<lambda>rw. fst rw \<noteq> rid) (pendingWaiters conn)"
        by (auto simp: remove_waiter_def)
      then show ?thesis
        using p by (rule one)
    qed
  next
    case Tick
    with s i same show ?thesis
      by simp
  qed
qed

lemma step_resolutions:
  assumes w: "wait_inv conn" and s: "step conn i = Inr conn'"
  shows "\<exists>new. callerResolutions conn' = callerResolutions conn @ new \<and>
     distinct (map fst new) \<and>
     (\<forall>x \<in> set new. \<not> is_pending (fst x) conn' \<and>
        (is_pending (fst x) conn \<or>
         fst x = requestIdCounter conn \<and> requestIdCounter conn < requestIdCounter conn'))"
proof -
  obtain now inp where i: "i = (now, inp)"
    by (cases i)
  from s i obtain c where t: "tick now conn = Inr c" and h: "handle c (now, inp) = Inr conn'"
    by (auto simp: bindE_eq_Inr)
  show ?thesis
  proof (cases "c = conn")
    case True
    with h handle_resolutions [OF w, of "(now, inp)" conn'] show ?thesis
      by simp
  next
    case False
    with tick_cases [OF t] obtain d where td: "teardown d timeout_error conn = Inr c"
      by blast
    from teardown_effect [OF td] have "lifecycle_state c \<noteq> OPEN"
      by auto
    from h closed_handle [OF this, of "(now, inp)"] have "conn' = c"
      by simp
    with teardown_resolutions [OF w td] show ?thesis
      by blast
  qed
qed

lemma step_res_inv:
  assumes w: "wait_inv conn" and r: "res_inv conn" and s: "step conn i = Inr conn'"
  shows "res_inv conn'"
proof -
  from step_resolutions [OF w s] obtain new where
    n: "callerResolutions conn' = callerResolutions conn @ new" "distinct (map fst new)"
      "\<forall>x \<in> set new. \<not> is_pending (fst x) conn' \<and>
        (is_pending (fst x) conn \<or>
         fst x = requestIdCounter conn \<and> requestIdCounter conn < requestIdCounter conn')"
    by blast
  from step_waiters [OF s] have le: "requestIdCounter conn \<le> requestIdCounter conn'"
    by simp
  have old: "fst x < requestIdCounter conn' \<and> \<not> is_pending (fst x) conn'"
    if "x \<in> set (callerResolutions conn)" for x
  proof -
    from r that have x: "fst x < requestIdCounter conn" "\<not> is_pending (fst x) conn"
      by (simp_all add: res_inv_def)
    with step_pending_was_pending [OF s _ x(1)] le show ?thesis
      by auto
  qed
  have new: "fst x < requestIdCounter conn' \<and> \<not> is_pending (fst x) conn' \<and>
      fst x \<notin> fst ` set (callerResolutions conn)"
    if "x \<in> set new" for x
  proof -
    from n(3) that have np: "\<not> is_pending (fst x) conn'"
      and c: "is_pending (fst x) conn \<or>
         fst x = requestIdCounter conn \<and> requestIdCounter conn < requestIdCounter conn'"
      by simp_all
    from c show ?thesis
    proof
      assume p: "is_pending (fst x) conn"
      then obtain rw where "rw \<in> set (pendingWaiters conn)" "fst rw = fst x"
        by (auto simp: is_pending_def)
      with wait_inv_key_lt [OF w, of rw] le have "fst x < requestIdCounter conn'"
        by simp
      moreover from r p have "fst x \<notin> fst ` set (callerResolutions conn)"
        by (auto simp: res_inv_def)
      ultimately show ?thesis
        using np by simp
    next
      assume e: "fst x = requestIdCounter conn \<and> requestIdCounter conn < requestIdCounter conn'"
      with r have "fst x \<notin> fst ` set (callerResolutions conn)"
        by (auto simp: res_inv_def)
      with e np show ?thesis
        by simp
    qed
  qed
  have "fst ` set (callerResolutions conn) \<inter> fst ` set new = {}"
  proof (rule ccontr)
    assume "fst ` set (callerResolutions conn) \<inter> fst ` set new \<noteq> {}"
    then obtain k where k: "k \<in> fst ` set (callerResolutions conn)" "k \<in> fst ` set new"
      by blast
    from k(2) obtain x where "x \<in> set new" "fst x = k"
      by blast
    with new [of x] k(1) show False
      by simp
  qed
  then have "distinct (map fst (callerResolutions conn @ new))"
    using r n(2) by (simp add: res_inv_def)
  with old new show ?thesis
    by (auto simp: res_inv_def n(1))
qed

lemma run_res_inv:
  "wait_inv conn \<Longrightarrow> res_inv conn \<Longrightarrow> run conn inputs = Inr conn' \<Longrightarrow> res_inv conn'"
proof (induction inputs arbitrary: conn)
  case Nil
  then show ?case by simp
next
  case (Cons i inputs)
  then obtain conn1 where 1: "step conn i = Inr conn1" and 2: "run conn1 inputs = Inr conn'"
    by (auto simp: bindE_eq_Inr)
  from step_preserves(1) [OF Cons.prems(1) 1] step_res_inv [OF Cons.prems(1,2) 1]
    Cons.IH [OF _ _ 2] show ?case
    by blast
qed

lemma new_connection_res_inv: "res_inv (new_connection addr timeout balanced monitoring)"
  by (simp add: res_inv_def new_connection_def)

text \<open>A waiter that is still pending after a run has seen no clock value at or after the
  end of its window.\<close>

lemma run_pending_in_time:
  "run conn inputs = Inr conn' \<Longrightarrow> wait_inv conn \<Longrightarrow> rw \<in> set (pendingWaiters conn) \<Longrightarrow>
   w_deadline (snd rw) = Some d \<Longrightarrow> is_pending (fst rw) conn' \<Longrightarrow>
   \<forall>ti \<in> set inputs. fst ti < d"
proof (induction inputs arbitrary: conn)
  case Nil
  then show ?case by simp
next
  case (Cons i inputs)
  then obtain conn1 where 1: "step conn i = Inr conn1" and 2: "run conn1 inputs = Inr conn'"
    by (auto simp: bindE_eq_Inr)
  obtain now inp where i: "i = (now, inp)"
    by (cases i)
  have lt: "fst rw < requestIdCounter conn"
    using Cons.prems(2,3) by (rule wait_inv_key_lt)
  have lt1: "fst rw < requestIdCounter conn1"
    using step_waiters [OF 1] lt by simp
  have p1: "is_pending (fst rw) conn1"
    using run_never_pending_again [OF 2 _ lt1] Cons.prems(5) by blast
  from step_keeps_waiter [OF 1 Cons.prems(3) p1] have in1: "rw \<in> set (pendingWaiters conn1)" .
  have w1: "wait_inv conn1"
    using Cons.prems(2) 1 by (rule step_preserves(1))
  have "now < d"
  proof (rule ccontr)
    assume "\<not> now < d"
    then have late: "d \<le> now"
      by simp
    have o: "lifecycle_state conn = OPEN"
      using Cons.prems(2,3) by (auto simp: wait_inv_def)
    from tick_fires [OF o Cons.prems(3,4) late] obtain d' where
      t: "tick now conn = teardown d' timeout_error conn"
      by blast
    from 1 i obtain c where c: "tick now conn = Inr c" and h: "handle c (now, inp) = Inr conn1"
      by (auto simp: bindE_eq_Inr)
    from c t have "teardown d' timeout_error conn = Inr c"
      by simp
    from teardown_effect [OF this] have cl: "lifecycle_state c \<noteq> OPEN" "pendingWaiters c = []"
      by auto
    from h closed_handle [OF cl(1), of "(now, inp)"] have "conn1 = c"
      by simp
    with cl(2) in1 show False
      by simp
  qed
  with Cons.IH [OF 2 w1 in1 Cons.prems(4,5)] i show ?case
    by simp
qed

subsection \<open>C8: a socket timeout tears the connection down\<close>

text \<open>
  C8: when a dispatch was given a socket timeout and no outcome arrives within its
  window, the whole transport is destroyed. On any connection reached by a run, with or
  without monitoring: a command is dispatched at \<open>t0\<close> with the socket timeout \<open>window\<close>
  and awaits a reply; after any further run it is still pending, that is, no outcome has
  arrived for it. Then that run has stayed within the window: every clock value in it is
  before \<open>t0 + window\<close>. And whatever happens next at a clock value \<open>now\<close> that is not
  before \<open>t0 + window\<close>, be it a late reply for this request, a reply or an error for
  another one, a new dispatch or nothing at all, and whatever happens after that, the
  run succeeds and ends in one and the same connection: its transport is destroyed, it is
  closed, no waiter is left, the caller of the dispatch and the caller of every other
  waiter that was pending are resolved with the timeout error, all at once and after the
  resolutions there were, and none of them is resolved with anything else, before or
  after.
\<close>

theorem C8_timeout_tears_down:
  assumes r0: "run (new_connection addr timeout balanced monitoring) inputs1 = Inr conn0"
    and d: "step conn0 (t0, Dispatch cmnd \<lparr>noResponse = False, socketTimeout = Some window\<rparr> None)
              = Inr conn1"
    and r2: "run conn1 inputs2 = Inr conn2"
    and p: "is_pending (requestIdCounter conn0) conn2"
    and late: "t0 + window \<le> now"
  shows "(\<forall>ti \<in> set inputs2. fst ti < t0 + window) \<and>
     (\<exists>conn3. (\<forall>inp inputs3. run conn2 ((now, inp) # inputs3) = Inr conn3) \<and>
        transportDestroyed conn3 \<and> lifecycle_state conn3 = CLOSED \<and> pendingWaiters conn3 = [] \<and>
        callerResolutions conn3 =
          callerResolutions conn2 @
          map (\<lambda>rw. (fst rw, Rejected timeout_error)) (pendingWaiters conn2) \<and>
        (\<forall>r. (requestIdCounter conn0, r) \<in> set (callerResolutions conn3) \<longleftrightarrow>
              r = Rejected timeout_error) \<and>
        (\<forall>rw \<in> set (pendingWaiters conn2).
           \<forall>r. (fst rw, r) \<in> set (callerResolutions conn3) \<longleftrightarrow> r = Rejected timeout_error))"
proof -
  let ?rid = "requestIdCounter conn0"
  let ?opts = "\<lparr>noResponse = False, socketTimeout = Some window\<rparr>"
  from run_preserves [OF new_connection_inv(1) r0] have w0: "wait_inv conn0"
    by simp
  from step_preserves(1) [OF w0 d] have w1: "wait_inv conn1" .
  from run_preserves [OF w1 r2] have w2: "wait_inv conn2"
    by simp
  from run_res_inv [OF new_connection_inv(1) new_connection_res_inv r0] have i0: "res_inv conn0" .
  from step_res_inv [OF w0 i0 d] have i1: "res_inv conn1" .
  from run_res_inv [OF w1 i1 r2] have i2: "res_inv conn2" .
  from d obtain c0 where t0: "tick t0 conn0 = Inr c0"
    and h0: "handle c0 (t0, Dispatch cmnd ?opts None) = Inr conn1"
    by (auto simp: bindE_eq_Inr)
  have o: "lifecycle_state conn0 = OPEN"
  proof (rule ccontr)
    assume c: "lifecycle_state conn0 \<noteq> OPEN"
    with d closed_step [of conn0 "(t0, Dispatch cmnd ?opts None)"]
    have "conn1 = conn0"
      by simp
    with r2 c have "conn2 = conn0"
      by (simp add: closed_run)
    with p wait_inv_counter_fresh(1) [OF w0] show False
      by simp
  qed
  have same: "c0 = conn0"
  proof (rule ccontr)
    assume "c0 \<noteq> conn0"
    with tick_cases [OF t0] obtain t where "teardown t timeout_error conn0 = Inr c0"
      by blast
    from teardown_effect [OF this] have c: "lifecycle_state c0 \<noteq> OPEN"
      "requestIdCounter c0 = ?rid"
      by auto
    from h0 closed_handle [OF c(1), of "(t0, Dispatch cmnd ?opts None)"] have "conn1 = c0"
      by simp
    with r2 c(1) have "conn2 = c0"
      by (simp add: closed_run)
    moreover from tick_preserves(1) [OF w0 t0] have "wait_inv c0" .
    ultimately show False
      using p wait_inv_counter_fresh(1) [of c0] c(2) by simp
  qed
  from h0 same have d': "dispatch t0 cmnd ?opts None conn0 = Inr conn1"
    by simp
  from dispatch_effect [OF d' o] obtain cmnd' evs where
    c1: "conn1 = dispatched_state t0 cmnd' ?opts None evs conn0"
    by auto
  let ?w = "\<lparr>w_command = cmnd', w_started = t0, w_deadline = Some (t0 + window)\<rparr>"
  have in1: "(?rid, ?w) \<in> set (pendingWaiters conn1)"
    and cnt: "requestIdCounter conn1 = Suc ?rid"
    by (simp_all add: c1 dispatched_state_def)
  have in2: "(?rid, ?w) \<in> set (pendingWaiters conn2)"
    using run_keeps_waiter [OF r2 in1] cnt p by simp
  have within: "\<forall>ti \<in> set inputs2. fst ti < t0 + window"
    using run_pending_in_time [OF r2 w1 in1] p by simp
  have o2: "lifecycle_state conn2 = OPEN"
    using w2 in2 by (auto simp: wait_inv_def)
  from tick_fires [OF o2 in2 _ late] obtain d' where
    tk: "tick now conn2 = teardown d' timeout_error conn2"
    by auto
  have "monitorCommands conn2 \<longrightarrow>
      (\<forall>rw \<in> set (pendingWaiters conn2). \<exists>cmd. extractCommand (w_command (snd rw)) = Inr cmd)"
    using w2 by (simp add: wait_inv_def)
  from teardown_total [OF this] obtain conn3 where t: "teardown d' timeout_error conn2 = Inr conn3"
    by blast
  from teardown_effect [OF t] obtain evs3 where
    c3: "conn3 = conn2\<lparr>emittedEvents := emittedEvents conn2 @ map Failed evs3,
                  callerResolutions :=
                    callerResolutions conn2 @
                    map (\<lambda>rw. (fst rw, Rejected timeout_error)) (pendingWaiters conn2),
                  pendingWaiters := [], lifecycle_state := CLOSED, transportDestroyed := True\<rparr>"
    by blast
  have cl: "lifecycle_state conn3 \<noteq> OPEN"
    by (simp add: c3)
  have s: "step conn2 (now, inp) = Inr conn3" for inp
    using tk t closed_handle [OF cl, of "(now, inp)"] by simp
  have runs: "run conn2 ((now, inp) # inputs3) = Inr conn3" for inp inputs3
    using s [of inp] closed_run [OF cl, of inputs3] by (simp del: step.simps)
  from step_res_inv [OF w2 i2 s [of Tick]] have "distinct (map fst (callerResolutions conn3))"
    by (simp add: res_inv_def)
  then have only: "r = r'"
    if "(k, r) \<in> set (callerResolutions conn3)" "(k, r') \<in> set (callerResolutions conn3)"
    for k r r'
    using that by (rule eq_key_imp_eq_value)
  have all: "(fst rw, Rejected timeout_error) \<in> set (callerResolutions conn3)"
    if "rw \<in> set (pendingWaiters conn2)" for rw
    using that by (auto simp: c3)
  have iff: "\<forall>r. (fst rw, r) \<in> set (callerResolutions conn3) \<longleftrightarrow> r = Rejected timeout_error"
    if "rw \<in> set (pendingWaiters conn2)" for rw
    using all [OF that] only by blast
  from iff [OF in2] have mine:
    "\<forall>r. (?rid, r) \<in> set (callerResolutions conn3) \<longleftrightarrow> r = Rejected timeout_error"
    by simp
  have "(\<forall>inp inputs3. run conn2 ((now, inp) # inputs3) = Inr conn3) \<and>
        transportDestroyed conn3 \<and> lifecycle_state conn3 = CLOSED \<and> pendingWaiters conn3 = [] \<and>
        callerResolutions conn3 =
          callerResolutions conn2 @
          map (\<lambda>rw. (fst rw, Rejected timeout_error)) (pendingWaiters conn2) \<and>
        (\<forall>r. (?rid, r) \<in> set (callerResolutions conn3) \<longleftrightarrow> r = Rejected timeout_error) \<and>
        (\<forall>rw \<in> set (pendingWaiters conn2).
           \<forall>r. (fst rw, r) \<in> set (callerResolutions conn3) \<longleftrightarrow> r = Rejected timeout_error)"
    using runs mine iff by (simp add: c3)
  with within show ?thesis
    by blast
qed

text \<open>
  C8 on a connection with one ping pending without timeout and a second one dispatched
  at 10 with a window of 50, both still pending at 20 and at 59: when time passes until
  60 with nothing else happening, and when a reply to the second ping arrives at 1000,
  the connection is the same, torn down at 60.
\<close>

theorem C8_timeout_tears_down_witness:
  "run (new_connection localhost None False True) [(0, Dispatch ping_request await_reply None)] =
     Inr one_pending_connection \<and>
   step one_pending_connection
     (10, Dispatch ping_request \<lparr>noResponse = False, socketTimeout = Some 50\<rparr> None) =
     Inr two_pending_connection \<and>
   run two_pending_connection [(20, Tick), (59, Tick)] = Inr two_pending_connection \<and>
   is_pending (requestIdCounter one_pending_connection) two_pending_connection \<and>
   (10::int) + 50 \<le> 60 \<and> (10::int) + 50 \<le> 1000 \<and>
   run two_pending_connection [(60, Tick)] = Inr timed_out_connection \<and>
   run two_pending_connection [(1000, Reply 1 ok_reply)] = Inr timed_out_connection \<and>
   transportDestroyed timed_out_connection \<and>
   lifecycle_state timed_out_connection = CLOSED \<and>
   pendingWaiters timed_out_connection = [] \<and>
   callerResolutions timed_out_connection =
     callerResolutions two_pending_connection @
     [(0, Rejected timeout_error), (1, Rejected timeout_error)] \<and>
   (1, Rejected timeout_error) \<in> set (callerResolutions timed_out_connection) \<and>
   (0, Rejected timeout_error) \<in> set (callerResolutions timed_out_connection) \<and>
   (1, Resolved (JObj ObjectClass [(''ok'', JNum 1)])) \<notin> set (callerResolutions timed_out_connection)"
proof -
  have r0: "run (new_connection localhost None False True)
      [(0, Dispatch ping_request await_reply None)] = Inr one_pending_connection"
    using one_pending_step by (simp del: step.simps)
  have r2: "run two_pending_connection [(20, Tick), (59, Tick)] = Inr two_pending_connection"
    by (simp add: connection_defs connection_example_defs)
  have p: "is_pending (requestIdCounter one_pending_connection) two_pending_connection"
    by (simp add: is_pending_def one_pending_connection_def two_pending_connection_def)
  have late: "(10::int) + 50 \<le> 60" "(10::int) + 50 \<le> 1000"
    by simp_all
  have t: "run two_pending_connection [(60, Tick)] = Inr timed_out_connection"
    using timed_out_step by (simp del: step.simps)
  have ws: "map (\<lambda>rw. (fst rw, Rejected timeout_error)) (pendingWaiters two_pending_connection) =
      [(0, Rejected timeout_error), (1, Rejected timeout_error)]"
    "requestIdCounter one_pending_connection = 1"
    by (simp_all add: two_pending_connection_def one_pending_connection_def)
  from C8_timeout_tears_down [OF r0 two_pending_step r2 p late(2)] obtain conn3 where
    c: "\<forall>inp inputs3. run two_pending_connection ((1000, inp) # inputs3) = Inr conn3"
      "transportDestroyed conn3" "lifecycle_state conn3 = CLOSED" "pendingWaiters conn3 = []"
      "callerResolutions conn3 =
         callerResolutions two_pending_connection @
         map (\<lambda>rw. (fst rw, Rejected timeout_error)) (pendingWaiters two_pending_connection)"
      "\<forall>r. (requestIdCounter one_pending_connection, r) \<in> set (callerResolutions conn3) \<longleftrightarrow>
           r = Rejected timeout_error"
    by blast
  from c(1) have "run two_pending_connection [(1000, Reply 1 ok_reply)] = Inr conn3"
    by blast
  with late_reply_run have e: "conn3 = timed_out_connection"
    by (simp del: run.simps)
  from c(6) have "(requestIdCounter one_pending_connection,
      Resolved (JObj ObjectClass [(''ok'', JNum 1)])) \<notin> set (callerResolutions conn3)"
    by blast
  then have n: "(1, Resolved (JObj ObjectClass [(''ok'', JNum 1)])) \<notin>
      set (callerResolutions timed_out_connection)"
    unfolding e ws by simp
  have "transportDestroyed timed_out_connection \<and>
      lifecycle_state timed_out_connection = CLOSED \<and>
      pendingWaiters timed_out_connection = [] \<and>
      callerResolutions timed_out_connection =
        callerResolutions two_pending_connection @
        [(0, Rejected timeout_error), (1, Rejected timeout_error)] \<and>
      (1, Rejected timeout_error) \<in> set (callerResolutions timed_out_connection)"
    using c(2-5) unfolding e ws by simp
  moreover from this have "(0, Rejected timeout_error) \<in> set (callerResolutions timed_out_connection)"
    by simp
  ultimately show ?thesis
    using r0 two_pending_step r2 p t late_reply_run n by simp
qed

subsection \<open>C9: session support\<close>

text \<open>
  C9: \<open>hasSessionSupport\<close> is true for every connection that carries a defined session
  timeout, true for every connection marked load-balanced whatever its session timeout,
  also when it is undefined, and false for every connection where neither holds.
\<close>

theorem C9_hasSessionSupport:
  "(logicalSessionTimeoutMinutes conn \<noteq> None \<longrightarrow> hasSessionSupport conn) \<and>
   (loadBalanced conn \<longrightarrow> hasSessionSupport conn) \<and>
   (logicalSessionTimeoutMinutes conn = None \<and> \<not> loadBalanced conn \<longrightarrow>
      \<not> hasSessionSupport conn)"
  by (simp add: hasSessionSupport_def)

text \<open>
  C9 on the three connections of the unit test: a session timeout of 5, load-balanced
  without a session timeout, and neither.
\<close>

theorem C9_hasSessionSupport_witness:
  "logicalSessionTimeoutMinutes (new_connection localhost (Some 5) False False) \<noteq> None \<and>
   hasSessionSupport (new_connection localhost (Some 5) False False) \<and>
   logicalSessionTimeoutMinutes (new_connection localhost None True False) = None \<and>
   loadBalanced (new_connection localhost None True False) \<and>
   hasSessionSupport (new_connection localhost None True False) \<and>
   logicalSessionTimeoutMinutes (new_connection localhost None False False) = None \<and>
   \<not> loadBalanced (new_connection localhost None False False) \<and>
   \<not> hasSessionSupport (new_connection localhost None False False)"
  using C9_hasSessionSupport [of "new_connection localhost (Some 5) False False"]
    C9_hasSessionSupport [of "new_connection localhost None True False"]
    C9_hasSessionSupport [of "new_connection localhost None False False"]
  by (simp add: new_connection_def)

end
